theory Spec2Isabelle
  imports Complex_Main "HOL-Library.Word" "HOL-Library.Multiset" "HOL-Library.Sublist"
    "HOL-Library.Monad_Syntax" "HOL-Library.Log_Nat"
begin

section \<open>The result computation of the symptom quiz (component \<open>Results\<close>)\<close>

text \<open>
  The component \<open>Results\<close> receives the selected symptom ids, the selected life stage and
  the population dataset, and derives four collections before rendering:
  \<open>prevalenceResults\<close>, \<open>cooccurringSymptoms\<close>, \<open>specScores\<close> and the data of the severity
  chart. The specification calls them \<open>rankPrevalence\<close>, \<open>suggestRelated\<close>,
  \<open>matchSpecialists\<close> and \<open>projectSeverity\<close>.

  Conventions of the embedding:
  \<^item> a JavaScript number is the rational that the double denotes (\<^typ>\<open>rat\<close>): no NaN and
    no infinity. The numbers of the dataset are only copied and compared, except for the
    co-occurrence percentages, which are added and divided: there each result is rounded as
    IEEE 754 double arithmetic rounds it (\<open>to_double\<close> below);
  \<^item> ids and counts are natural numbers (integers that JavaScript represents exactly, and that
    \<open>String\<close> prints in decimal);
  \<^item> a JavaScript string is the list of its UTF-16 code units, which is what
    \<open>length\<close> and \<open>substring\<close> count;
  \<^item> a lookup object keyed by \<open>String(id)\<close> is a partial map on ids;
  \<^item> a field of a JSON object that may be missing is an \<^typ>\<open>'a option\<close>, and
    \<open>None\<close> is JavaScript's \<open>undefined\<close>;
  \<^item> \<open>Array.prototype.sort\<close> is stable, so sorting with the comparator
    \<open>(a, b) => key b - key a\<close> is the stable insertion sort on the negated key.
\<close>

subsection \<open>Strings\<close>

type_synonym jsstring = "16 word list"

definition js_str :: "string \<Rightarrow> jsstring" where
  "js_str s = map (\<lambda>c. of_char c) s"

definition digit_unit :: "nat \<Rightarrow> 16 word" where
  "digit_unit d = of_nat (48 + d)"

text \<open>\<open>String(n)\<close> for a natural number: its decimal digits.\<close>

function String_of :: "nat \<Rightarrow> jsstring" where
  "String_of n = (if n < 10 then [digit_unit n]
                  else String_of (n div 10) @ [digit_unit (n mod 10)])"
  by pat_completeness auto
termination
  by (relation "measure (\<lambda>n. n)") auto

declare String_of.simps [simp del]

text \<open>The template literal \<open>`Symptom ${id}`\<close>.\<close>

definition placeholder_name :: "nat \<Rightarrow> jsstring" where
  "placeholder_name i = js_str ''Symptom '' @ String_of i"

text \<open>The ellipsis character U+2026 appended to a truncated chart label.\<close>

definition ellipsis :: "16 word" where
  "ellipsis = 0x2026"

subsection \<open>The operator \<open>||\<close> on possibly missing values\<close>

text \<open>
  \<open>x || d\<close> is \<open>d\<close> when \<open>x\<close> is falsy: \<open>undefined\<close>, the number 0 or the empty string.
\<close>

definition num_or :: "rat option \<Rightarrow> rat \<Rightarrow> rat" where
  "num_or x d = (case x of None \<Rightarrow> d | Some v \<Rightarrow> if v = 0 then d else v)"

definition str_or :: "jsstring option \<Rightarrow> jsstring \<Rightarrow> jsstring" where
  "str_or x d = (case x of None \<Rightarrow> d | Some s \<Rightarrow> if s = [] then d else s)"

subsection \<open>The dataset\<close>

record prevalence_entry =
  symptom_name :: "jsstring option"
  category_icon :: "jsstring option"
  percentage :: "rat option"

record cooc_row =
  symptom_id_a :: nat
  symptom_id_b :: nat
  co_occurrence_pct :: rat

record severity_entry =
  pct_mild :: "rat option"
  pct_moderate :: "rat option"
  pct_severe :: "rat option"

record specialist =
  specialist_id :: nat
  specialist_type :: jsstring
  description :: jsstring
  what_to_expect :: jsstring
  icon :: jsstring
  symptom_ids :: "nat list"

record life_stage =
  stage_id :: nat
  stage_name :: jsstring

record dataset =
  prevalence :: "nat \<rightharpoonup> prevalence_entry"
  prevalenceByStage :: "nat \<rightharpoonup> (nat \<rightharpoonup> prevalence_entry)"
  cooccurrences :: "cooc_row list"
  specialists :: "specialist list"
  severity :: "nat \<rightharpoonup> severity_entry"

text \<open>The object \<open>{}\<close> read as an entry: every field is \<open>undefined\<close>.\<close>

definition empty_entry :: prevalence_entry where
  "empty_entry = \<lparr>prevalence_entry.symptom_name = None, category_icon = None, percentage = None\<rparr>"

definition empty_severity :: severity_entry where
  "empty_severity = \<lparr>pct_mild = None, pct_moderate = None, pct_severe = None\<rparr>"

text \<open>\<open>table[String(id)] || {}\<close>\<close>

definition entry_or_empty :: "(nat \<rightharpoonup> prevalence_entry) \<Rightarrow> nat \<Rightarrow> prevalence_entry" where
  "entry_or_empty table i = (case table i of None \<Rightarrow> empty_entry | Some e \<Rightarrow> e)"

subsection \<open>Prevalence of the selected symptoms\<close>

record prevalence_row =
  symptom_id :: nat
  symptom_name :: jsstring
  category_icon :: jsstring
  percentage :: rat
  overall_percentage :: rat

text \<open>\<open>prevalenceByStage[String(selectedStage.stage_id)] || {}\<close>\<close>

definition stagePrevalence :: "dataset \<Rightarrow> life_stage \<Rightarrow> (nat \<rightharpoonup> prevalence_entry)" where
  "stagePrevalence data selectedStage =
     (case prevalenceByStage data (stage_id selectedStage) of
        None \<Rightarrow> Map.empty
      | Some t \<Rightarrow> t)"

text \<open>The callback of \<open>selectedSymptoms.map\<close>.\<close>

definition prevalence_of :: "dataset \<Rightarrow> life_stage \<Rightarrow> nat \<Rightarrow> prevalence_row" where
  "prevalence_of data selectedStage i =
     (let overall = entry_or_empty (prevalence data) i;
          byStage = entry_or_empty (stagePrevalence data selectedStage) i
      in \<lparr>symptom_id = i,
          symptom_name = str_or (prevalence_entry.symptom_name overall) (placeholder_name i),
          category_icon = str_or (prevalence_entry.category_icon overall) [],
          percentage = num_or (prevalence_entry.percentage byStage)
                         (num_or (prevalence_entry.percentage overall) 0),
          overall_percentage = num_or (prevalence_entry.percentage overall) 0\<rparr>)"

definition prevalenceResults :: "dataset \<Rightarrow> life_stage \<Rightarrow> nat list \<Rightarrow> prevalence_row list" where
  "prevalenceResults data selectedStage selectedSymptoms =
     sort_key (\<lambda>r. - percentage r) (map (prevalence_of data selectedStage) selectedSymptoms)"

subsection \<open>Co-occurring symptoms the user did not select\<close>

text \<open>
  The operators \<open>+\<close> and \<open>/\<close> on numbers return the exact result rounded to the nearest
  double, a tie going to the double with the even significand (IEEE 754 binary64, the only
  rounding mode of JavaScript). A double is \<open>m * 2^e\<close> with an integer \<open>m\<close> of at most 53 bits
  and \<open>e \<ge> -1074\<close>: for \<open>2^k \<le> \<bar>x\<bar> < 2^(k+1)\<close> the doubles around \<open>x\<close> are the multiples of
  \<open>2^(k-52)\<close>, and of \<open>2^(-1074)\<close> below \<open>2^(-1022)\<close> (gradual underflow). A result of
  magnitude \<open>2^1024\<close> or more, which is an infinity in JavaScript, is outside the embedding:
  percentages, their sums and their means are far below.
\<close>

text \<open>The nearest integer, a half going to the even one.\<close>

definition round_even :: "rat \<Rightarrow> int" where
  "round_even x =
     (let n = \<lfloor>x\<rfloor>; r = x - of_int n
      in if r < 1 / 2 then n else if 1 / 2 < r then n + 1 else if even n then n else n + 1)"

text \<open>
  For \<open>x > 0\<close>, the exponent \<open>k\<close> with \<open>2^k \<le> x < 2^(k+1)\<close>: the difference of the bit
  lengths of numerator and denominator, or one less.
\<close>

definition ilog2 :: "rat \<Rightarrow> int" where
  "ilog2 x =
     (let k = bitlen (fst (quotient_of x)) - bitlen (snd (quotient_of x))
      in if 2 powi k \<le> x then k else k - 1)"

definition to_double :: "rat \<Rightarrow> rat" where
  "to_double x =
     (if x = 0 then 0
      else let e = max (ilog2 \<bar>x\<bar> - 52) (- 1074)
           in of_int (round_even (x / 2 powi e)) * 2 powi e)"

record cooc_score =
  total :: rat
  count :: nat

text \<open>
  \<open>coocScores\<close> is an object used as a dictionary: the association list keeps the keys in
  the order in which the properties were created. The total is the sum so far, rounded after
  each addition; the count is a number that \<open>+= 1\<close> keeps exact (below \<open>2^53\<close>).
  \<open>if (!coocScores[k]) coocScores[k] = { total: 0, count: 0 };
    coocScores[k].total += pct; coocScores[k].count += 1;\<close>
\<close>

fun accumulate :: "nat \<Rightarrow> rat \<Rightarrow> (nat \<times> cooc_score) list \<Rightarrow> (nat \<times> cooc_score) list" where
  "accumulate k pct [] = [(k, \<lparr>total = to_double (0 + pct), count = 0 + 1\<rparr>)]"
| "accumulate k pct ((k', v) # kvs) =
     (if k = k' then (k', \<lparr>total = to_double (total v + pct), count = count v + 1\<rparr>) # kvs
      else (k', v) # accumulate k pct kvs)"

text \<open>The callback of \<open>cooccurrences.forEach\<close>: two independent conditionals.\<close>

definition cooc_step :: "nat set \<Rightarrow> (nat \<times> cooc_score) list \<Rightarrow> cooc_row \<Rightarrow> (nat \<times> cooc_score) list" where
  "cooc_step selectedSet scores row =
     (let s1 = (if symptom_id_a row \<in> selectedSet \<and> symptom_id_b row \<notin> selectedSet
                then accumulate (symptom_id_b row) (co_occurrence_pct row) scores else scores)
      in if symptom_id_b row \<in> selectedSet \<and> symptom_id_a row \<notin> selectedSet
         then accumulate (symptom_id_a row) (co_occurrence_pct row) s1 else s1)"

definition coocScores :: "dataset \<Rightarrow> nat list \<Rightarrow> (nat \<times> cooc_score) list" where
  "coocScores data selectedSymptoms =
     foldl (cooc_step (set selectedSymptoms)) [] (cooccurrences data)"

text \<open>
  \<open>Object.entries\<close>: the keys that are array indices (below \<open>2^32 - 1\<close>) come first, in
  ascending numeric order, then the other keys in creation order.
\<close>

definition is_array_index :: "nat \<Rightarrow> bool" where
  "is_array_index k \<longleftrightarrow> k < 4294967295"

definition object_entries :: "(nat \<times> 'v) list \<Rightarrow> (nat \<times> 'v) list" where
  "object_entries kvs =
     sort_key fst (filter (\<lambda>kv. is_array_index (fst kv)) kvs)
       @ filter (\<lambda>kv. \<not> is_array_index (fst kv)) kvs"

text \<open>
  \<open>Math.round\<close>: the nearest integer, a half rounded up. Its argument is a double, and the
  result is exact.
\<close>

definition Math_round :: "rat \<Rightarrow> int" where
  "Math_round x = \<lfloor>x + 1 / 2\<rfloor>"

record suggestion_row =
  symptom_name :: jsstring
  icon :: jsstring
  avg_pct :: int

text \<open>The entries that pass \<open>.filter(([_, v]) => v.count >= 2)\<close>.\<close>

definition supported :: "dataset \<Rightarrow> nat list \<Rightarrow> (nat \<times> cooc_score) list" where
  "supported data selectedSymptoms =
     filter (\<lambda>kv. count (snd kv) \<ge> 2) (object_entries (coocScores data selectedSymptoms))"

text \<open>The callback of \<open>.map(([id, v]) => ...)\<close>.\<close>

definition suggestion_of :: "dataset \<Rightarrow> nat \<times> cooc_score \<Rightarrow> suggestion_row" where
  "suggestion_of data kv =
     \<lparr>symptom_name = str_or (Option.bind (prevalence data (fst kv)) prevalence_entry.symptom_name)
                         (placeholder_name (fst kv)),
      icon = str_or (Option.bind (prevalence data (fst kv)) prevalence_entry.category_icon) [],
      avg_pct = Math_round (to_double (total (snd kv) / of_nat (count (snd kv))))\<rparr>"

definition cooccurringSymptoms :: "dataset \<Rightarrow> nat list \<Rightarrow> suggestion_row list" where
  "cooccurringSymptoms data selectedSymptoms =
     take 5 (sort_key (\<lambda>r. - avg_pct r)
               (map (suggestion_of data) (supported data selectedSymptoms)))"

subsection \<open>Matching specialists\<close>

record spec_score = specialist +
  matched :: "nat list"
  matchedNames :: "jsstring list"
  score :: nat

text \<open>The callback of \<open>specialists.map\<close>; the spread \<open>{...spec, ...}\<close> keeps every field.\<close>

definition score_of :: "dataset \<Rightarrow> nat set \<Rightarrow> specialist \<Rightarrow> spec_score" where
  "score_of data selectedSet spec =
     (let m = filter (\<lambda>i. i \<in> selectedSet) (symptom_ids spec);
          names = map (\<lambda>i. str_or (Option.bind (prevalence data i) prevalence_entry.symptom_name) []) m
      in specialist.extend spec
           (spec_score.fields m names (length m)))"

definition specScores :: "dataset \<Rightarrow> nat list \<Rightarrow> spec_score list" where
  "specScores data selectedSymptoms =
     take 3 (sort_key (\<lambda>s. - int (score s))
               (filter (\<lambda>s. score s > 0)
                  (map (score_of data (set selectedSymptoms)) (specialists data))))"

subsection \<open>Severity chart\<close>

record chart_row =
  name :: jsstring
  Mild :: rat
  Moderate :: rat
  Severe :: rat

text \<open>
  \<open>row.symptom_name.length > 15 ? row.symptom_name.substring(0, 15) + '\<dots>' : row.symptom_name\<close>
\<close>

definition chart_label :: "jsstring \<Rightarrow> jsstring" where
  "chart_label s = (if length s > 15 then take 15 s @ [ellipsis] else s)"

definition chart_row_of :: "dataset \<Rightarrow> prevalence_row \<Rightarrow> chart_row" where
  "chart_row_of data row =
     (let sev = (case severity data (symptom_id row) of None \<Rightarrow> empty_severity | Some s \<Rightarrow> s)
      in \<lparr>name = chart_label (prevalence_row.symptom_name row),
          Mild = num_or (pct_mild sev) 0,
          Moderate = num_or (pct_moderate sev) 0,
          Severe = num_or (pct_severe sev) 0\<rparr>)"

definition severityChart :: "dataset \<Rightarrow> life_stage \<Rightarrow> nat list \<Rightarrow> chart_row list" where
  "severityChart data selectedStage selectedSymptoms =
     map (chart_row_of data) (prevalenceResults data selectedStage selectedSymptoms)"

section \<open>The same computation on a store\<close>

text \<open>
  To state that the component mutates none of its arguments, the objects and arrays it works
  on are placed in a store: a list of cells, the address of an object being its index. A cell
  is an array or an object; numbers and strings are values and are kept inside their cell,
  while a field or an array element that is an object is the address of that object. \<open>map\<close>,
  \<open>filter\<close>, \<open>slice\<close>, \<open>Object.entries\<close>, \<open>new Set\<close> and object literals allocate; \<open>sort\<close>
  writes the array it is called on; the statements of the \<open>forEach\<close> callback write the
  dictionary \<open>coocScores\<close> and the score objects in it.
\<close>

datatype cell =
    Numbers "nat list"
  | Strings "jsstring list"
  | Refs "nat list"
  | Props "(nat \<times> nat) list"
  | EntryObj prevalence_entry
  | SeverityObj severity_entry
  | CoocObj cooc_row
  | SpecObj nat jsstring jsstring jsstring jsstring nat
  | SetObj "nat list"
  | ScoreObj cooc_score
  | PairObj nat nat
  | RowObj prevalence_row
  | SuggestionObj suggestion_row
  | SpecScoreObj nat jsstring jsstring jsstring jsstring nat nat nat nat
  | ChartObj chart_row

type_synonym store = "cell list"

text \<open>Reading an address; allocating a cell at the next free address.\<close>

definition lookup :: "store \<Rightarrow> nat \<Rightarrow> cell option" where
  "lookup h a = (if a < length h then Some (h ! a) else None)"

definition alloc :: "cell \<Rightarrow> store \<Rightarrow> nat \<times> store" where
  "alloc c h = (length h, h @ [c])"

text \<open>
  A loop whose body allocates: the store is threaded through the calls of the callback \<open>f\<close>,
  and the addresses it returns are collected.
\<close>

fun map_st :: "(store \<Rightarrow> 'a \<Rightarrow> nat \<times> store) \<Rightarrow> 'a list \<Rightarrow> store \<Rightarrow> nat list \<times> store" where
  "map_st f [] h = ([], h)"
| "map_st f (x # xs) h =
     (let (b, h1) = f h x; (bs, h2) = map_st f xs h1 in (b # bs, h2))"

text \<open>
  Readers: the value of the object at an address, when the cell there has the expected
  shape. \<open>None\<close> is a \<open>TypeError\<close> of the source (an argument that is not what the
  component expects).
\<close>

definition numbers_at :: "store \<Rightarrow> nat \<Rightarrow> nat list option" where
  "numbers_at h a = (case lookup h a of Some (Numbers xs) \<Rightarrow> Some xs | _ \<Rightarrow> None)"

definition strings_at :: "store \<Rightarrow> nat \<Rightarrow> jsstring list option" where
  "strings_at h a = (case lookup h a of Some (Strings xs) \<Rightarrow> Some xs | _ \<Rightarrow> None)"

definition refs_at :: "store \<Rightarrow> nat \<Rightarrow> nat list option" where
  "refs_at h a = (case lookup h a of Some (Refs xs) \<Rightarrow> Some xs | _ \<Rightarrow> None)"

definition props_at :: "store \<Rightarrow> nat \<Rightarrow> (nat \<times> nat) list option" where
  "props_at h a = (case lookup h a of Some (Props kvs) \<Rightarrow> Some kvs | _ \<Rightarrow> None)"

definition entry_at :: "store \<Rightarrow> nat \<Rightarrow> prevalence_entry option" where
  "entry_at h a = (case lookup h a of Some (EntryObj e) \<Rightarrow> Some e | _ \<Rightarrow> None)"

definition severity_at :: "store \<Rightarrow> nat \<Rightarrow> severity_entry option" where
  "severity_at h a = (case lookup h a of Some (SeverityObj e) \<Rightarrow> Some e | _ \<Rightarrow> None)"

definition cooc_at :: "store \<Rightarrow> nat \<Rightarrow> cooc_row option" where
  "cooc_at h a = (case lookup h a of Some (CoocObj r) \<Rightarrow> Some r | _ \<Rightarrow> None)"

definition specialist_at :: "store \<Rightarrow> nat \<Rightarrow> specialist option" where
  "specialist_at h a =
     (case lookup h a of
        Some (SpecObj i ty de wh ic ia) \<Rightarrow>
          map_option (\<lambda>ids. \<lparr>specialist_id = i, specialist_type = ty, description = de,
                               what_to_expect = wh, icon = ic, symptom_ids = ids\<rparr>)
            (numbers_at h ia)
      | _ \<Rightarrow> None)"

definition score_at :: "store \<Rightarrow> nat \<Rightarrow> cooc_score option" where
  "score_at h a = (case lookup h a of Some (ScoreObj v) \<Rightarrow> Some v | _ \<Rightarrow> None)"

definition pair_at :: "store \<Rightarrow> nat \<Rightarrow> (nat \<times> cooc_score) option" where
  "pair_at h a =
     (case lookup h a of
        Some (PairObj k va) \<Rightarrow> map_option (Pair k) (score_at h va)
      | _ \<Rightarrow> None)"

definition row_at :: "store \<Rightarrow> nat \<Rightarrow> prevalence_row option" where
  "row_at h a = (case lookup h a of Some (RowObj r) \<Rightarrow> Some r | _ \<Rightarrow> None)"

definition suggestion_at :: "store \<Rightarrow> nat \<Rightarrow> suggestion_row option" where
  "suggestion_at h a = (case lookup h a of Some (SuggestionObj r) \<Rightarrow> Some r | _ \<Rightarrow> None)"

definition chart_at :: "store \<Rightarrow> nat \<Rightarrow> chart_row option" where
  "chart_at h a = (case lookup h a of Some (ChartObj r) \<Rightarrow> Some r | _ \<Rightarrow> None)"

definition spec_score_at :: "store \<Rightarrow> nat \<Rightarrow> spec_score option" where
  "spec_score_at h a =
     (case lookup h a of
        Some (SpecScoreObj i ty de wh ic ia ma na sc) \<Rightarrow>
          (case (numbers_at h ia, numbers_at h ma, strings_at h na) of
             (Some ids, Some m, Some names) \<Rightarrow>
               Some (specialist.extend
                       \<lparr>specialist_id = i, specialist_type = ty, description = de,
                        what_to_expect = wh, icon = ic, symptom_ids = ids\<rparr>
                       (spec_score.fields m names sc))
           | _ \<Rightarrow> None)
      | _ \<Rightarrow> None)"

text \<open>An array of objects, and a lookup object whose values are objects.\<close>

definition objects_at :: "(store \<Rightarrow> nat \<Rightarrow> 'a option) \<Rightarrow> store \<Rightarrow> nat \<Rightarrow> 'a list option" where
  "objects_at rd h a = Option.bind (refs_at h a) (\<lambda>as. those (map (rd h) as))"

definition table_at :: "(store \<Rightarrow> nat \<Rightarrow> 'a option) \<Rightarrow> store \<Rightarrow> nat \<Rightarrow> (nat \<rightharpoonup> 'a) option" where
  "table_at rd h a =
     Option.bind (props_at h a)
       (\<lambda>kvs. map_option map_of (those (map (\<lambda>kv. map_option (Pair (fst kv)) (rd h (snd kv))) kvs)))"

text \<open>The arguments of the component and the collections it derives, as addresses.\<close>

record input_refs =
  selectedSymptoms_ref :: nat
  prevalence_ref :: nat
  prevalenceByStage_ref :: nat
  cooccurrences_ref :: nat
  specialists_ref :: nat
  severity_ref :: nat

record output_refs =
  prevalenceResults_ref :: nat
  cooccurringSymptoms_ref :: nat
  specScores_ref :: nat
  severityChart_ref :: nat

text \<open>The dataset that the arguments hold in a given store.\<close>

definition load_dataset :: "store \<Rightarrow> input_refs \<Rightarrow> dataset option" where
  "load_dataset h refs =
     do {
       p \<leftarrow> table_at entry_at h (prevalence_ref refs);
       s \<leftarrow> table_at (table_at entry_at) h (prevalenceByStage_ref refs);
       c \<leftarrow> objects_at cooc_at h (cooccurrences_ref refs);
       sp \<leftarrow> objects_at specialist_at h (specialists_ref refs);
       sv \<leftarrow> table_at severity_at h (severity_ref refs);
       Some \<lparr>prevalence = p, prevalenceByStage = s, cooccurrences = c, specialists = sp,
             severity = sv\<rparr>
     }"

text \<open>
  \<open>arr.sort((a, b) => key b - key a)\<close> writes the sorted elements into the cell of \<open>arr\<close>.
  The keys are read through the references.
\<close>

definition refs_of :: "store \<Rightarrow> nat \<Rightarrow> nat list" where
  "refs_of h a = (case lookup h a of Some (Refs as) \<Rightarrow> as | _ \<Rightarrow> [])"

definition sort_at :: "(store \<Rightarrow> nat \<Rightarrow> 'k::linorder) \<Rightarrow> nat \<Rightarrow> store \<Rightarrow> store" where
  "sort_at key arr h =
     (case lookup h arr of
        Some (Refs as) \<Rightarrow> h[arr := Refs (sort_key (key h) as)]
      | _ \<Rightarrow> h)"

definition row_key :: "store \<Rightarrow> nat \<Rightarrow> rat" where
  "row_key h a = (case row_at h a of Some r \<Rightarrow> - percentage r | None \<Rightarrow> 0)"

definition suggestion_key :: "store \<Rightarrow> nat \<Rightarrow> int" where
  "suggestion_key h a = (case suggestion_at h a of Some r \<Rightarrow> - avg_pct r | None \<Rightarrow> 0)"

definition score_value :: "store \<Rightarrow> nat \<Rightarrow> nat" where
  "score_value h a =
     (case lookup h a of
        Some (SpecScoreObj i ty de wh ic ia ma na sc) \<Rightarrow> sc
      | _ \<Rightarrow> 0)"

definition spec_score_key :: "store \<Rightarrow> nat \<Rightarrow> int" where
  "spec_score_key h a = - int (score_value h a)"

text \<open>\<open>selectedSymptoms.map(id => ({...})).sort(...)\<close>\<close>

definition prevalenceResults_st ::
    "dataset \<Rightarrow> life_stage \<Rightarrow> nat list \<Rightarrow> store \<Rightarrow> nat \<times> store" where
  "prevalenceResults_st data selectedStage selectedSymptoms h =
     (let (rows, h1) = map_st (\<lambda>h i. alloc (RowObj (prevalence_of data selectedStage i)) h)
                         selectedSymptoms h;
          (arr, h2) = alloc (Refs rows) h1
      in (arr, sort_at row_key arr h2))"

text \<open>\<open>selectedSet.has(x)\<close>, and the body of the \<open>forEach\<close> callback.\<close>

definition has :: "store \<Rightarrow> nat \<Rightarrow> nat \<Rightarrow> bool" where
  "has h s x = (case lookup h s of Some (SetObj xs) \<Rightarrow> x \<in> set xs | _ \<Rightarrow> False)"

definition add_to :: "nat \<Rightarrow> rat \<Rightarrow> store \<Rightarrow> store" where
  "add_to a pct h =
     (case lookup h a of
        Some (ScoreObj v) \<Rightarrow>
          h[a := ScoreObj \<lparr>total = to_double (total v + pct), count = count v + 1\<rparr>]
      | _ \<Rightarrow> h)"

definition accumulate_st :: "nat \<Rightarrow> nat \<Rightarrow> rat \<Rightarrow> store \<Rightarrow> store" where
  "accumulate_st dict k pct h =
     (case lookup h dict of
        Some (Props kvs) \<Rightarrow>
          (case map_of kvs k of
             None \<Rightarrow>
               (let (a, h1) = alloc (ScoreObj \<lparr>total = 0, count = 0\<rparr>) h;
                    h2 = h1[dict := Props (kvs @ [(k, a)])]
                in add_to a pct h2)
           | Some a \<Rightarrow> add_to a pct h)
      | _ \<Rightarrow> h)"

definition cooc_step_st :: "nat \<Rightarrow> nat \<Rightarrow> store \<Rightarrow> cooc_row \<Rightarrow> store" where
  "cooc_step_st selectedSet dict h row =
     (let h1 = (if has h selectedSet (symptom_id_a row) \<and> \<not> has h selectedSet (symptom_id_b row)
                then accumulate_st dict (symptom_id_b row) (co_occurrence_pct row) h else h)
      in if has h1 selectedSet (symptom_id_b row) \<and> \<not> has h1 selectedSet (symptom_id_a row)
         then accumulate_st dict (symptom_id_a row) (co_occurrence_pct row) h1 else h1)"

text \<open>\<open>Object.entries(coocScores).filter(...).map(...).sort(...).slice(0, 5)\<close>\<close>

definition entries_st :: "nat \<Rightarrow> store \<Rightarrow> nat \<times> store" where
  "entries_st dict h =
     (let kvs = (case props_at h dict of Some kvs \<Rightarrow> kvs | None \<Rightarrow> []);
          (ps, h1) = map_st (\<lambda>h kv. alloc (PairObj (fst kv) (snd kv)) h) (object_entries kvs) h
      in alloc (Refs ps) h1)"

definition well_supported :: "store \<Rightarrow> nat \<Rightarrow> bool" where
  "well_supported h p = (case pair_at h p of Some kv \<Rightarrow> count (snd kv) \<ge> 2 | None \<Rightarrow> False)"

definition suggestion_st :: "dataset \<Rightarrow> store \<Rightarrow> nat \<Rightarrow> nat \<times> store" where
  "suggestion_st data h p =
     (case pair_at h p of
        Some kv \<Rightarrow> alloc (SuggestionObj (suggestion_of data kv)) h
      | None \<Rightarrow> alloc (Refs []) h)"

definition cooccurringSymptoms_st ::
    "dataset \<Rightarrow> nat \<Rightarrow> store \<Rightarrow> nat \<times> store" where
  "cooccurringSymptoms_st data selectedSet h =
     (let (dict, h1) = alloc (Props []) h;
          h2 = foldl (cooc_step_st selectedSet dict) h1 (cooccurrences data);
          (entries, h3) = entries_st dict h2;
          (kept, h4) = alloc (Refs (filter (well_supported h3) (refs_of h3 entries))) h3;
          (rows, h5) = map_st (suggestion_st data) (refs_of h4 kept) h4;
          (arr, h6) = alloc (Refs rows) h5;
          h7 = sort_at suggestion_key arr h6
      in alloc (Refs (take 5 (refs_of h7 arr))) h7)"

text \<open>
  \<open>specialists.map(spec => ...).filter(...).sort(...).slice(0, 3)\<close>. The spread copies the
  reference to \<open>spec.symptom_ids\<close>; \<open>matched\<close> and \<open>matchedNames\<close> are new arrays.
\<close>

definition score_of_st :: "dataset \<Rightarrow> nat \<Rightarrow> store \<Rightarrow> nat \<Rightarrow> nat \<times> store" where
  "score_of_st data selectedSet h a =
     (case lookup h a of
        Some (SpecObj i ty de wh ic ia) \<Rightarrow>
          (let ids = (case numbers_at h ia of Some xs \<Rightarrow> xs | None \<Rightarrow> []);
               m = filter (has h selectedSet) ids;
               (ma, h1) = alloc (Numbers m) h;
               names = map (\<lambda>i. str_or (Option.bind (prevalence data i)
                                             prevalence_entry.symptom_name) []) m;
               (na, h2) = alloc (Strings names) h1
           in alloc (SpecScoreObj i ty de wh ic ia ma na (length m)) h2)
      | _ \<Rightarrow> alloc (Refs []) h)"

definition specScores_st :: "dataset \<Rightarrow> nat \<Rightarrow> nat \<Rightarrow> store \<Rightarrow> nat \<times> store" where
  "specScores_st data selectedSet specs h =
     (let (objs, h1) = map_st (score_of_st data selectedSet) (refs_of h specs) h;
          (all, h2) = alloc (Refs objs) h1;
          (pos, h3) = alloc (Refs (filter (\<lambda>a. 0 < score_value h2 a) (refs_of h2 all))) h2;
          h4 = sort_at spec_score_key pos h3
      in alloc (Refs (take 3 (refs_of h4 pos))) h4)"

text \<open>\<open>prevalenceResults.map(row => ({...}))\<close> of the severity chart.\<close>

definition chart_row_st :: "dataset \<Rightarrow> store \<Rightarrow> nat \<Rightarrow> nat \<times> store" where
  "chart_row_st data h a =
     (case row_at h a of
        Some r \<Rightarrow> alloc (ChartObj (chart_row_of data r)) h
      | None \<Rightarrow> alloc (Refs []) h)"

definition severityChart_st :: "dataset \<Rightarrow> nat \<Rightarrow> store \<Rightarrow> nat \<times> store" where
  "severityChart_st data rows h =
     (let (cs, h1) = map_st (chart_row_st data) (refs_of h rows) h
      in alloc (Refs cs) h1)"

text \<open>
  The component, up to rendering: the arguments are read, then the four collections are
  derived in the order of the source. The source reads its arguments while it computes; the
  only writes are those above (\<open>sort_at\<close>, \<open>accumulate_st\<close>, \<open>add_to\<close>), all on cells
  allocated during the call, so what is read from the arguments does not depend on when it
  is read. An argument that is not an array or an object of the expected shape is a
  \<open>TypeError\<close>: the result \<open>None\<close>. The branches \<open>_ \<Rightarrow> \<dots>\<close> of the functions above concern cells
  of an unexpected shape among those the component has just created; they are never taken.
\<close>

definition Results_st :: "input_refs \<Rightarrow> life_stage \<Rightarrow> store \<Rightarrow> (output_refs \<times> store) option" where
  "Results_st refs selectedStage h =
     do {
       data \<leftarrow> load_dataset h refs;
       selectedSymptoms \<leftarrow> numbers_at h (selectedSymptoms_ref refs);
       let (pr, h1) = prevalenceResults_st data selectedStage selectedSymptoms h;
           (selectedSet, h2) = alloc (SetObj selectedSymptoms) h1;
           (co, h3) = cooccurringSymptoms_st data selectedSet h2;
           (sp, h4) = specScores_st data selectedSet (specialists_ref refs) h3;
           (ch, h5) = severityChart_st data pr h4
       in Some (\<lparr>prevalenceResults_ref = pr, cooccurringSymptoms_ref = co,
                 specScores_ref = sp, severityChart_ref = ch\<rparr>, h5)
     }"

section \<open>Notions used in the statements\<close>

subsection \<open>Evidence for a candidate\<close>

text \<open>
  The percentages that one row of the co-occurrence table adds for the candidate \<open>y\<close> when
  the symptoms \<open>S\<close> are selected, and those that the whole table adds, in the order of the
  scan. A row contributes to \<open>y\<close> when exactly one of its sides is selected and the other
  side is \<open>y\<close>.
\<close>

definition contribution :: "nat set \<Rightarrow> nat \<Rightarrow> cooc_row \<Rightarrow> rat list" where
  "contribution S y row =
     (if symptom_id_a row \<in> S \<and> symptom_id_b row \<notin> S \<and> symptom_id_b row = y
      then [co_occurrence_pct row] else [])
     @ (if symptom_id_b row \<in> S \<and> symptom_id_a row \<notin> S \<and> symptom_id_a row = y
        then [co_occurrence_pct row] else [])"

definition contributions :: "nat set \<Rightarrow> cooc_row list \<Rightarrow> nat \<Rightarrow> rat list" where
  "contributions S rows y = concat (map (contribution S y) rows)"

text \<open>
  The total after the percentages \<open>ps\<close> have been added to \<open>s\<close> one by one, each sum rounded
  to a double. Percentages are whole when they are non-negative integers with a sum below
  \<open>2^52\<close>.
\<close>

definition double_sum :: "rat \<Rightarrow> rat list \<Rightarrow> rat" where
  "double_sum s ps = foldl (\<lambda>t p. to_double (t + p)) s ps"

definition whole_percentages :: "rat list \<Rightarrow> bool" where
  "whole_percentages ps \<longleftrightarrow>
     list_all (\<lambda>p. of_int \<lfloor>p\<rfloor> = p \<and> 0 \<le> p) ps \<and> sum_list ps < 2 ^ 52"

definition contributes :: "nat set \<Rightarrow> nat \<Rightarrow> cooc_row \<Rightarrow> bool" where
  "contributes S y row \<longleftrightarrow>
     (symptom_id_a row \<in> S \<and> symptom_id_b row \<notin> S \<and> symptom_id_b row = y) \<or>
     (symptom_id_b row \<in> S \<and> symptom_id_a row \<notin> S \<and> symptom_id_a row = y)"

text \<open>
  The selected symptoms from which the candidate \<open>y\<close> has evidence: the support of the
  specification's glossary. A table holds each pair once when no two rows are about the same
  unordered pair of symptoms.
\<close>

definition evidence_sources :: "nat set \<Rightarrow> cooc_row list \<Rightarrow> nat \<Rightarrow> nat set" where
  "evidence_sources S rows y =
     {s \<in> S. y \<notin> S \<and> (\<exists>row \<in> set rows.
        (symptom_id_a row = s \<and> symptom_id_b row = y) \<or>
        (symptom_id_b row = s \<and> symptom_id_a row = y))}"

definition each_pair_once :: "cooc_row list \<Rightarrow> bool" where
  "each_pair_once rows \<longleftrightarrow> distinct (map (\<lambda>row. {symptom_id_a row, symptom_id_b row}) rows)"

subsection \<open>Prevalence rows\<close>

text \<open>
  The dataset without the entry of symptom \<open>i\<close> in the table of the stage \<open>st\<close>, and the row
  of an id that no table knows.
\<close>

definition drop_stage_entry :: "dataset \<Rightarrow> life_stage \<Rightarrow> nat \<Rightarrow> dataset" where
  "drop_stage_entry d st i =
     d\<lparr>prevalenceByStage := (prevalenceByStage d)(stage_id st \<mapsto> (stagePrevalence d st)(i := None))\<rparr>"

definition unknown_row :: "nat \<Rightarrow> prevalence_row" where
  "unknown_row i = \<lparr>symptom_id = i, symptom_name = placeholder_name i, category_icon = [],
                    percentage = 0, overall_percentage = 0\<rparr>"

subsection \<open>Fresh addresses\<close>

text \<open>
  An address is fresh with respect to a store of \<open>n\<close> cells when it was allocated later. A
  fresh array is a new array of new objects; the matches of a specialist are fresh when its
  \<open>matched\<close> and \<open>matchedNames\<close> are new arrays.
\<close>

definition fresh :: "nat \<Rightarrow> store \<Rightarrow> nat \<Rightarrow> bool" where
  "fresh n h a \<longleftrightarrow> n \<le> a \<and> a < length h"

definition fresh_array :: "nat \<Rightarrow> store \<Rightarrow> nat \<Rightarrow> bool" where
  "fresh_array n h a \<longleftrightarrow>
     (\<exists>as. lookup h a = Some (Refs as) \<and> list_all (fresh n h) as) \<and> fresh n h a"

definition fresh_matches :: "nat \<Rightarrow> store \<Rightarrow> nat \<Rightarrow> bool" where
  "fresh_matches n h a \<longleftrightarrow>
     (\<exists>i ty de wh ic ia ma na sc.
        lookup h a = Some (SpecScoreObj i ty de wh ic ia ma na sc) \<and>
        (\<exists>m. lookup h ma = Some (Numbers m)) \<and> fresh n h ma \<and>
        (\<exists>names. lookup h na = Some (Strings names)) \<and> fresh n h na)"

subsection \<open>Notions used in the proofs\<close>

text \<open>
  The accumulator after some more contributions; the endpoint of a contributing row that is
  not the candidate; a reader whose results survive allocation; the invariant of the scan of
  the co-occurrence table on the store (nothing older than the dictionary is written); what
  holds of an object returned by the callback of \<open>specialists.map\<close>.
\<close>

definition add_evidence :: "cooc_score option \<Rightarrow> rat list \<Rightarrow> cooc_score option" where
  "add_evidence acc ps =
     (if ps = [] then acc
      else Some \<lparr>total = double_sum (case acc of None \<Rightarrow> 0 | Some v \<Rightarrow> total v) ps,
                count = (case acc of None \<Rightarrow> 0 | Some v \<Rightarrow> count v) + length ps\<rparr>)"

definition other_side :: "nat \<Rightarrow> cooc_row \<Rightarrow> nat" where
  "other_side y row = (if symptom_id_a row = y then symptom_id_b row else symptom_id_a row)"

definition stable_reader :: "(store \<Rightarrow> nat \<Rightarrow> 'a option) \<Rightarrow> bool" where
  "stable_reader rd \<longleftrightarrow>
     (\<forall>h h' a x. prefix h h' \<longrightarrow> rd h a = Some x \<longrightarrow> rd h' a = Some x)"

definition acc_inv :: "store \<Rightarrow> nat \<Rightarrow> store \<Rightarrow> bool" where
  "acc_inv h0 dict h \<longleftrightarrow>
     prefix h0 h \<and> length h0 \<le> dict \<and>
     (\<forall>kvs. lookup h dict = Some (Props kvs) \<longrightarrow> (\<forall>kv \<in> set kvs. length h0 \<le> snd kv))"

definition spec_obj_ok :: "nat \<Rightarrow> store \<Rightarrow> nat \<Rightarrow> bool" where
  "spec_obj_ok n h b \<longleftrightarrow> fresh n h b \<and> (0 < score_value h b \<longrightarrow> fresh_matches n h b)"

text \<open>
  The relation between the dictionary \<open>coocScores\<close> in the store and the association list of
  the function \<open>coocScores\<close>: the same keys in the same order, each score object holding the
  score of its key, and no score object shared between two keys.
\<close>

definition bumped :: "rat \<Rightarrow> cooc_score \<Rightarrow> cooc_score" where
  "bumped pct v = \<lparr>total = to_double (total v + pct), count = count v + 1\<rparr>"

definition scores_rel :: "store \<Rightarrow> (nat \<times> nat) list \<Rightarrow> (nat \<times> cooc_score) list \<Rightarrow> bool" where
  "scores_rel h kvs ps \<longleftrightarrow>
     list_all2 (\<lambda>kv p. fst kv = fst p \<and> score_at h (snd kv) = Some (snd p)) kvs ps \<and>
     distinct (map snd kvs)"

definition acc_rel :: "nat \<Rightarrow> nat list \<Rightarrow> nat \<Rightarrow> store \<Rightarrow> (nat \<times> cooc_score) list \<Rightarrow> bool" where
  "acc_rel s sel dict h ps \<longleftrightarrow>
     lookup h s = Some (SetObj sel) \<and>
     (\<exists>kvs. lookup h dict = Some (Props kvs) \<and> scores_rel h kvs ps)"

section \<open>Example data\<close>

text \<open>
  The scenarios of the specification and the inputs at which the theorems below are
  instantiated.
\<close>

definition no_data :: dataset where
  "no_data = \<lparr>prevalence = Map.empty, prevalenceByStage = Map.empty, cooccurrences = [],
              specialists = [], severity = Map.empty\<rparr>"

definition a_stage :: life_stage where
  "a_stage = \<lparr>stage_id = 1, stage_name = js_str ''Teens''\<rparr>"

definition both_directions :: dataset where
  "both_directions = no_data\<lparr>cooccurrences :=
     [\<lparr>symptom_id_a = 1, symptom_id_b = 3, co_occurrence_pct = 95\<rparr>,
      \<lparr>symptom_id_a = 3, symptom_id_b = 1, co_occurrence_pct = 90\<rparr>]\<rparr>"

definition cooc_scenario :: dataset where
  "cooc_scenario = no_data\<lparr>cooccurrences :=
     [\<lparr>symptom_id_a = 1, symptom_id_b = 3, co_occurrence_pct = 50\<rparr>,
      \<lparr>symptom_id_a = 1, symptom_id_b = 4, co_occurrence_pct = 80\<rparr>,
      \<lparr>symptom_id_a = 2, symptom_id_b = 3, co_occurrence_pct = 60\<rparr>]\<rparr>"

text \<open>
  Percentages with one decimal, as the numbers that \<open>JSON.parse\<close> makes of them: the nearest
  doubles.
\<close>

definition decimal_pair :: dataset where
  "decimal_pair = no_data\<lparr>cooccurrences :=
     [\<lparr>symptom_id_a = 1, symptom_id_b = 3, co_occurrence_pct = to_double (796 / 10)\<rparr>,
      \<lparr>symptom_id_a = 2, symptom_id_b = 3, co_occurrence_pct = to_double (574 / 10)\<rparr>]\<rparr>"

definition decimal_triple :: dataset where
  "decimal_triple = no_data\<lparr>cooccurrences :=
     [\<lparr>symptom_id_a = 1, symptom_id_b = 3, co_occurrence_pct = to_double (214 / 10)\<rparr>,
      \<lparr>symptom_id_a = 2, symptom_id_b = 3, co_occurrence_pct = to_double (433 / 10)\<rparr>,
      \<lparr>symptom_id_a = 4, symptom_id_b = 3, co_occurrence_pct = to_double (448 / 10)\<rparr>]\<rparr>"





definition one_symptom :: dataset where
  "one_symptom = no_data\<lparr>prevalence :=
     [1 \<mapsto> \<lparr>prevalence_entry.symptom_name = Some (js_str ''Fatigue''),
              category_icon = Some (js_str ''*''), percentage = Some 30\<rparr>]\<rparr>"

definition fatigue_row :: prevalence_row where
  "fatigue_row = \<lparr>symptom_id = 1, symptom_name = js_str ''Fatigue'', category_icon = js_str ''*'',
                  percentage = 30, overall_percentage = 30\<rparr>"

definition long_name :: dataset where
  "long_name = no_data\<lparr>
     prevalence := [1 \<mapsto> \<lparr>prevalence_entry.symptom_name = Some (js_str ''Irregular menstrual cycles''),
                           category_icon = None, percentage = Some 45\<rparr>,
                    2 \<mapsto> \<lparr>prevalence_entry.symptom_name = Some (js_str ''Hives''),
                           category_icon = None, percentage = Some 0\<rparr>],
     prevalenceByStage := [1 \<mapsto> [1 \<mapsto> \<lparr>prevalence_entry.symptom_name = None,
                                           category_icon = None, percentage = Some 0\<rparr>,
                                    2 \<mapsto> \<lparr>prevalence_entry.symptom_name = None,
                                           category_icon = None, percentage = Some 0\<rparr>]],
     severity := [1 \<mapsto> \<lparr>pct_mild = Some 20, pct_moderate = None, pct_severe = Some 5\<rparr>]\<rparr>"

definition long_name_row :: prevalence_row where
  "long_name_row = \<lparr>symptom_id = 1, symptom_name = js_str ''Irregular menstrual cycles'',
                    category_icon = [], percentage = 45, overall_percentage = 45\<rparr>"

text \<open>A store holding a selection and a small dataset, for the run used as an example.\<close>

definition ex_store :: store where
  "ex_store =
     [Numbers [1, 2],
      EntryObj \<lparr>prevalence_entry.symptom_name = Some (js_str ''Fatigue''), category_icon = None,
                percentage = Some 30\<rparr>,
      Props [(1, 1)],
      EntryObj \<lparr>prevalence_entry.symptom_name = None, category_icon = None,
                percentage = Some 40\<rparr>,
      Props [(1, 3)],
      Props [(1, 4)],
      CoocObj \<lparr>symptom_id_a = 1, symptom_id_b = 3, co_occurrence_pct = 50\<rparr>,
      CoocObj \<lparr>symptom_id_a = 2, symptom_id_b = 3, co_occurrence_pct = 60\<rparr>,
      Refs [6, 7],
      Numbers [1, 2, 3],
      SpecObj 1 (js_str ''X'') [] [] [] 9,
      Refs [10],
      SeverityObj \<lparr>pct_mild = Some 20, pct_moderate = None, pct_severe = Some 5\<rparr>,
      Props [(1, 12)]]"

definition ex_refs :: input_refs where
  "ex_refs = \<lparr>selectedSymptoms_ref = 0, prevalence_ref = 2, prevalenceByStage_ref = 5,
              cooccurrences_ref = 8, specialists_ref = 11, severity_ref = 13\<rparr>"

definition ex_out :: output_refs where
  "ex_out = \<lparr>prevalenceResults_ref = 16, cooccurringSymptoms_ref = 25, specScores_ref = 31,
             severityChart_ref = 34\<rparr>"

text \<open>The dataset held by that store, and the store with the selection \<open>[1, 42]\<close>.\<close>

definition ex_dataset :: dataset where
  "ex_dataset =
     \<lparr>prevalence =
        [1 \<mapsto> \<lparr>prevalence_entry.symptom_name = Some (js_str ''Fatigue''), category_icon = None,
                 percentage = Some 30\<rparr>],
      prevalenceByStage =
        [1 \<mapsto> [1 \<mapsto> \<lparr>prevalence_entry.symptom_name = None, category_icon = None,
                        percentage = Some 40\<rparr>]],
      cooccurrences =
        [\<lparr>symptom_id_a = 1, symptom_id_b = 3, co_occurrence_pct = 50\<rparr>,
         \<lparr>symptom_id_a = 2, symptom_id_b = 3, co_occurrence_pct = 60\<rparr>],
      specialists =
        [\<lparr>specialist_id = 1, specialist_type = js_str ''X'', description = [],
          what_to_expect = [], icon = [], symptom_ids = [1, 2, 3]\<rparr>],
      severity = [1 \<mapsto> \<lparr>pct_mild = Some 20, pct_moderate = None, pct_severe = Some 5\<rparr>]\<rparr>"

definition unknown_store :: store where
  "unknown_store = ex_store[0 := Numbers [1, 42]]"

section \<open>Auxiliary facts\<close>

subsection \<open>Rounding to a double\<close>

lemma Math_round_nearest: "\<bar>of_int (Math_round x) - x\<bar> \<le> 1 / 2"
  unfolding Math_round_def by linarith

lemma Math_round_eq_iff:
  "Math_round x = n \<longleftrightarrow> of_int n - 1 / 2 \<le> x \<and> x < of_int n + 1 / 2"
  unfolding Math_round_def floor_eq_iff by auto

lemma round_even_near: "\<bar>of_int (round_even x) - x\<bar> \<le> 1 / 2"
proof -
  have "of_int \<lfloor>x\<rfloor> \<le> x" "x < of_int \<lfloor>x\<rfloor> + 1" by linarith+
  then show ?thesis unfolding round_even_def Let_def by (auto simp: abs_le_iff)
qed

lemma int_between:
  assumes "of_int a - 1 < (of_int b :: rat)" and "of_int b < (of_int a :: rat) + 1"
  shows "a = b"
proof -
  have "(of_int (a - 1) :: rat) < of_int b" "(of_int b :: rat) < of_int (a + 1)"
    using assms by simp_all
  then have "a - 1 < b" "b < a + 1" by (simp_all only: of_int_less_iff)
  then show ?thesis by linarith
qed

lemma round_even_eqI: 
  assumes "\<bar>x - of_int n\<bar> < 1 / 2" shows "round_even x = n"
proof -
  have f: "of_int \<lfloor>x\<rfloor> \<le> x" "x < of_int \<lfloor>x\<rfloor> + 1" by linarith+
  have n: "of_int n - 1 / 2 < x" "x < of_int n + 1 / 2" using assms by linarith+
  show ?thesis
  proof (cases "x - of_int \<lfloor>x\<rfloor> < 1 / 2")
    case True
    have "\<lfloor>x\<rfloor> = n" by (rule int_between) (use f n True in linarith)+
    then show ?thesis using True unfolding round_even_def Let_def by simp
  next
    case False
    have "x - of_int \<lfloor>x\<rfloor> \<noteq> 1 / 2"
    proof
      assume h: "x - of_int \<lfloor>x\<rfloor> = 1 / 2"
      have "(of_int \<lfloor>x\<rfloor> :: rat) < of_int n" using n h by linarith
      moreover have "(of_int n :: rat) < of_int (\<lfloor>x\<rfloor> + 1)" 
      proof -
        have "(of_int n :: rat) < of_int \<lfloor>x\<rfloor> + 1" using n h by linarith
        then show ?thesis by simp
      qed
      ultimately have "\<lfloor>x\<rfloor> < n" "n < \<lfloor>x\<rfloor> + 1" by (simp_all only: of_int_less_iff)
      then show False by linarith
    qed
    then have gt: "1 / 2 < x - of_int \<lfloor>x\<rfloor>" using False by linarith
    have e: "(of_int (\<lfloor>x\<rfloor> + 1) :: rat) = of_int \<lfloor>x\<rfloor> + 1" by simp
    have "\<lfloor>x\<rfloor> + 1 = n" by (rule int_between; unfold e) (use f n gt in linarith)+
    then show ?thesis using gt unfolding round_even_def Let_def by auto
  qed
qed

lemma round_even_of_int [simp]: "round_even (of_int n) = n"
  by (rule round_even_eqI) simp


lemma bitlen_powi:
  assumes "0 < p"
  shows "2 powi (bitlen p - 1) \<le> (of_int p :: rat)" and "(of_int p :: rat) < 2 powi bitlen p"
proof -
  from bitlen_bounds [OF assms] have b: "2 ^ nat (bitlen p - 1) \<le> p" "p < 2 ^ nat (bitlen p)" by simp_all
  have ge: "1 \<le> bitlen p" using assms by (simp add: bitlen_alt_def)
  have "(of_int (2 ^ nat (bitlen p - 1)) :: rat) \<le> of_int p" using b(1) by (simp only: of_int_le_iff)
  then show "2 powi (bitlen p - 1) \<le> (of_int p :: rat)" using ge by (simp add: power_int_def)
  have "(of_int p :: rat) < of_int (2 ^ nat (bitlen p))" using b(2) by (simp only: of_int_less_iff)
  then show "(of_int p :: rat) < 2 powi bitlen p" using ge by (simp add: power_int_def)
qed

lemma ilog2_bounds:
  assumes "0 < x"
  shows "2 powi ilog2 x \<le> x" and "x < 2 powi (ilog2 x + 1)"
proof -
  obtain p q where pq: "quotient_of x = (p, q)" by (cases "quotient_of x")
  have q: "0 < q" using pq by (rule quotient_of_denom_pos)
  have x: "x = of_int p / of_int q" using pq by (rule quotient_of_div)
  have p: "0 < p" using assms q x by (simp add: zero_less_divide_iff)
  define k where "k = bitlen p - bitlen q"
  have il: "ilog2 x = (if 2 powi k \<le> x then k else k - 1)"
    by (simp add: ilog2_def pq k_def Let_def)
  have qpos: "(0::rat) < of_int q" using q by simp
  have lo: "2 powi (k - 1) \<le> x"
  proof -
    have "2 powi (k - 1) * of_int q \<le> 2 powi (k - 1) * (2 powi bitlen q :: rat)"
      using bitlen_powi(2) [OF q] by (intro mult_left_mono) (simp_all add: less_imp_le)
    also have "\<dots> = 2 powi (bitlen p - 1)" by (simp add: k_def flip: power_int_add)
    also have "\<dots> \<le> of_int p" by (rule bitlen_powi(1) [OF p])
    finally show ?thesis using qpos by (simp add: x pos_le_divide_eq)
  qed
  have hi: "x < 2 powi (k + 1)"
  proof -
    have "(of_int p :: rat) < 2 powi bitlen p" by (rule bitlen_powi(2) [OF p])
    also have "\<dots> = 2 powi (k + 1) * 2 powi (bitlen q - 1)" by (simp add: k_def flip: power_int_add)
    also have "\<dots> \<le> 2 powi (k + 1) * of_int q"
      using bitlen_powi(1) [OF q] by (intro mult_left_mono) simp_all
    finally show ?thesis using qpos by (simp add: x pos_divide_less_eq)
  qed
  show "2 powi ilog2 x \<le> x" using lo by (simp add: il)
  show "x < 2 powi (ilog2 x + 1)" using hi by (auto simp: il)
qed

lemma powi2_less_iff: "(2::rat) powi a < 2 powi b \<longleftrightarrow> a < b"
proof
  assume h: "(2::rat) powi a < 2 powi b"
  show "a < b"
  proof (rule ccontr)
    assume "\<not> a < b"
    then have "b \<le> a" by simp
    then have "(2::rat) powi b \<le> 2 powi a" by (rule power_int_increasing) simp
    then show False using h by simp
  qed
next
  assume "a < b"
  then show "(2::rat) powi a < 2 powi b" by (rule power_int_strict_increasing) simp
qed

lemma powi2_le_iff: "(2::rat) powi a \<le> 2 powi b \<longleftrightarrow> a \<le> b"
  using powi2_less_iff [of b a] by (auto simp: not_less [symmetric])

lemma ilog2_unique:
  assumes "2 powi k \<le> x" and "x < 2 powi (k + 1)"
  shows "ilog2 x = k"
proof -
  have "(0::rat) < 2 powi k" by simp
  then have pos: "0 < x" using assms(1) by linarith
  have "(2::rat) powi k < 2 powi (ilog2 x + 1)" using assms(1) ilog2_bounds(2) [OF pos] by linarith
  moreover have "(2::rat) powi ilog2 x < 2 powi (k + 1)" using assms(2) ilog2_bounds(1) [OF pos] by linarith
  ultimately show ?thesis by (simp add: powi2_less_iff)
qed


lemma to_double_0 [simp]: "to_double 0 = 0"
  by (simp add: to_double_def)

lemma to_double_binade:
  assumes "2 powi k \<le> \<bar>x\<bar>" and "\<bar>x\<bar> < 2 powi (k + 1)"
  shows "to_double x = of_int (round_even (x / 2 powi max (k - 52) (- 1074))) * 2 powi max (k - 52) (- 1074)"
proof -
  have "(0::rat) < 2 powi k" by simp
  then have "0 < \<bar>x\<bar>" using assms(1) by linarith
  then have "x \<noteq> 0" by auto
  moreover have "ilog2 \<bar>x\<bar> = k" using assms by (rule ilog2_unique)
  ultimately show ?thesis by (simp add: to_double_def Let_def)
qed

lemma to_double_ulp:
  assumes "x \<noteq> 0"
  shows "\<bar>to_double x - x\<bar> \<le> 2 powi (max (ilog2 \<bar>x\<bar> - 52) (- 1074) - 1)"
proof -
  define e where "e = max (ilog2 \<bar>x\<bar> - 52) (- 1074)"
  have pos: "(0::rat) < 2 powi e" by simp
  have "to_double x - x = (of_int (round_even (x / 2 powi e)) - x / 2 powi e) * 2 powi e"
    using assms by (simp add: to_double_def e_def Let_def algebra_simps)
  then have "\<bar>to_double x - x\<bar> = \<bar>of_int (round_even (x / 2 powi e)) - x / 2 powi e\<bar> * 2 powi e"
    by (simp add: abs_mult)
  also have "\<dots> \<le> (1 / 2) * 2 powi e"
    by (intro mult_right_mono round_even_near) simp
  also have "\<dots> = 2 powi (e - 1)" by (simp add: power_int_diff)
  finally show ?thesis by (simp add: e_def)
qed

lemma to_double_error_normal:
  assumes "2 powi (- 1022) \<le> \<bar>x\<bar>"
  shows "\<bar>to_double x - x\<bar> \<le> \<bar>x\<bar> / 2 ^ 53"
proof -
  have "(0::rat) < 2 powi (- 1022)" by simp
  then have pos: "0 < \<bar>x\<bar>" using assms by linarith
  then have nz: "x \<noteq> 0" by auto
  define k where "k = ilog2 \<bar>x\<bar>"
  have b: "2 powi k \<le> \<bar>x\<bar>" "\<bar>x\<bar> < 2 powi (k + 1)"
    using ilog2_bounds [OF pos] by (simp_all add: k_def)
  have "(2::rat) powi (- 1022) < 2 powi (k + 1)" using assms b(2) by linarith
  then have "- 1022 < k + 1" by (simp only: powi2_less_iff)
  then have e: "max (k - 52) (- 1074) = k - 52" by simp
  have "\<bar>to_double x - x\<bar> \<le> 2 powi (k - 52 - 1)" using to_double_ulp [OF nz] by (simp only: e flip: k_def)
  also have "\<dots> = 2 powi k / 2 ^ 53" by (simp add: power_int_diff)
  also have "\<dots> \<le> \<bar>x\<bar> / 2 ^ 53" using b(1) by (simp add: divide_right_mono)
  finally show ?thesis .
qed

lemma to_double_error_subnormal:
  assumes "\<bar>x\<bar> < 2 powi (- 1022)"
  shows "\<bar>to_double x - x\<bar> \<le> 2 powi (- 1075)"
proof (cases "x = 0")
  case True
  then show ?thesis by simp
next
  case nz: False
  then have pos: "0 < \<bar>x\<bar>" by simp
  define k where "k = ilog2 \<bar>x\<bar>"
  have b: "2 powi k \<le> \<bar>x\<bar>" "\<bar>x\<bar> < 2 powi (k + 1)"
    using ilog2_bounds [OF pos] by (simp_all add: k_def)
  have "(2::rat) powi k < 2 powi (- 1022)" using assms b(1) by linarith
  then have "k < - 1022" by (simp only: powi2_less_iff)
  then have e: "max (k - 52) (- 1074) = - 1074" by simp
  show ?thesis using to_double_ulp [OF nz] by (simp only: e flip: k_def) simp
qed

lemma to_double_exact:
  assumes "\<bar>m\<bar> < 2 ^ 53" and "- 1074 \<le> e'"
  shows "to_double (of_int m * 2 powi e') = of_int m * 2 powi e'"
proof (cases "m = 0")
  case True
  then show ?thesis by simp
next
  case False
  define x :: rat where "x = of_int m * 2 powi e'"
  have nz: "x \<noteq> 0" using False by (simp add: x_def)
  then have pos: "0 < \<bar>x\<bar>" by simp
  define k where "k = ilog2 \<bar>x\<bar>"
  define e where "e = max (k - 52) (- 1074)"
  have b: "2 powi k \<le> \<bar>x\<bar>" using ilog2_bounds(1) [OF pos] by (simp add: k_def)
  have "\<bar>x\<bar> = of_int \<bar>m\<bar> * 2 powi e'" by (simp add: x_def abs_mult)
  also have "\<dots> < of_int (2 ^ 53) * 2 powi e'"
    using assms(1) by (intro mult_strict_right_mono) (simp_all only: of_int_less_iff, simp)
  also have "\<dots> = 2 powi (53 + e')" by (simp add: power_int_add)
  finally have "(2::rat) powi k < 2 powi (53 + e')" using b by linarith
  then have "k < 53 + e'" by (simp only: powi2_less_iff)
  then have le: "e \<le> e'" using assms(2) by (simp add: e_def)
  have "x / 2 powi e = of_int m * 2 powi (e' - e)" by (simp add: x_def power_int_diff)
  also have "\<dots> = of_int (m * 2 ^ nat (e' - e))" using le by (simp add: power_int_def)
  finally have "round_even (x / 2 powi e) = m * 2 ^ nat (e' - e)" by (simp only: round_even_of_int)
  then have "to_double x = of_int (m * 2 ^ nat (e' - e)) * 2 powi e"
    using nz by (simp add: to_double_def Let_def e_def k_def)
  also have "\<dots> = of_int m * 2 powi (e' - e) * 2 powi e" using le by (simp add: power_int_def)
  also have "\<dots> = x" by (simp add: x_def power_int_diff)
  finally show ?thesis by (simp add: x_def)
qed

lemma to_double_of_int: "\<bar>n\<bar> < 2 ^ 53 \<Longrightarrow> to_double (of_int n) = of_int n"
  using to_double_exact [of n 0] by simp

lemma to_double_half: "\<bar>n\<bar> < 2 ^ 53 \<Longrightarrow> to_double (of_int n / 2) = of_int n / 2"
  using to_double_exact [of n "- 1"] by (simp add: power_int_minus field_simps)

lemma to_double_numeral [simp]: "numeral w < (9007199254740992::int) \<Longrightarrow> to_double (numeral w) = numeral w"
  using to_double_of_int [of "numeral w"] by simp

lemma to_double_1 [simp]: "to_double 1 = 1"
  using to_double_of_int [of 1] by simp

lemma to_double_numeral_half [simp]:
  "numeral w < (9007199254740992::int) \<Longrightarrow> to_double (numeral w / 2) = numeral w / 2"
  using to_double_half [of "numeral w"] by simp

lemma Math_round_quotient:
  assumes t0: "0 \<le> t" and t52: "t < 2 ^ 52" and c: "0 < c"
  shows "Math_round (to_double (of_int t / of_nat c)) = Math_round (of_int t / of_nat c)"
proof -
  define x :: rat where "x = of_int t / of_nat c"
  define k where "k = Math_round x"
  have cpos: "(0::rat) < of_nat c" using c by simp
  have x0: "0 \<le> x" using t0 by (simp add: x_def)
  have kb: "of_int k - 1 / 2 \<le> x" "x < of_int k + 1 / 2"
    using Math_round_eq_iff [of x k] by (simp_all add: k_def)
  have xc: "x * of_nat c = of_int t" using c by (simp add: x_def)
  have goal: "of_int k - 1 / 2 \<le> to_double x \<and> to_double x < of_int k + 1 / 2"
  proof (cases "\<bar>x\<bar> < 2 powi (- 1022)")
    case True
    have s1: "(2::rat) powi (- 1022) \<le> 2 powi (- 2)" by (subst powi2_le_iff) simp
    have s2: "(2::rat) powi (- 1075) \<le> 2 powi (- 2)" by (subst powi2_le_iff) simp
    have q: "(2::rat) powi (- 2) = 1 / 4" by (simp add: power_int_minus field_simps)
    have e: "\<bar>to_double x - x\<bar> \<le> 2 powi (- 1075)" using True by (rule to_double_error_subnormal)
    have xs: "x < 1 / 4" using True s1 q by linarith
    then have k0: "k = 0" using x0 unfolding k_def Math_round_eq_iff by simp
    have "\<bar>to_double x - x\<bar> \<le> 1 / 4" using e s2 q by linarith
    then have "- (1 / 2) \<le> to_double x \<and> to_double x < 1 / 2" using xs x0 by linarith
    then show ?thesis by (simp add: k0)
  next
    case False
    then have n: "2 powi (- 1022) \<le> \<bar>x\<bar>" by simp
    have e: "\<bar>to_double x - x\<bar> \<le> x / 2 ^ 53" using to_double_error_normal [OF n] x0 by simp
    have "x * (2 * of_nat c) = 2 * of_int t" using xc by (simp add: algebra_simps)
    also have "\<dots> < 2 * of_int (2 ^ 52)" using t52 by (simp only: mult_less_cancel_left_pos of_int_less_iff)
    finally have "x * (2 * of_nat c) < 2 ^ 53" by simp
    then have small: "x / 2 ^ 53 < 1 / (2 * of_nat c)" using cpos by (simp add: field_simps)
    define d1 where "d1 = 2 * t - int c * (2 * k - 1)"
    define d2 where "d2 = int c * (2 * k + 1) - 2 * t"
    have d1: "of_int d1 = 2 * of_nat c * (x - (of_int k - 1 / 2))"
      using xc by (simp add: d1_def algebra_simps)
    have d2: "of_int d2 = 2 * of_nat c * (of_int k + 1 / 2 - x)"
      using xc by (simp add: d2_def algebra_simps)
    have "(0::rat) < of_int d2" unfolding d2 using cpos kb(2) by simp
    then have "1 \<le> d2" by simp
    then have "(1::rat) \<le> of_int d2" by simp
    then have "1 / (2 * of_nat c) \<le> of_int k + 1 / 2 - x" unfolding d2 using cpos by (simp add: field_simps)
    then have up: "to_double x < of_int k + 1 / 2" using e small by linarith
    have "(0::rat) \<le> of_int d1" unfolding d1 using cpos kb(1) by simp
    then have d1n: "0 \<le> d1" by simp
    have lo: "of_int k - 1 / 2 \<le> to_double x"
    proof (cases "d1 = 0")
      case True
      then have "2 * of_nat c * (x - (of_int k - 1 / 2)) = 0" using d1 by simp
      then have xh: "x = of_int (2 * k - 1) / 2" using cpos by simp
      have "x * 1 \<le> x * of_nat c" using x0 c by (intro mult_left_mono) simp_all
      then have "x \<le> of_int t" by (simp add: xc)
      then have "(of_int (2 * k - 1) :: rat) \<le> of_int (2 * t)" unfolding xh by simp
      then have "2 * k - 1 \<le> 2 * t" by (simp only: of_int_le_iff)
      moreover have "(0::rat) \<le> of_int (2 * k - 1)" using x0 xh by simp
      then have "0 \<le> 2 * k - 1" by (simp only: of_int_0_le_iff)
      ultimately have "\<bar>2 * k - 1\<bar> < 2 ^ 53" using t52 by simp
      then have "to_double (of_int (2 * k - 1) / 2) = of_int (2 * k - 1) / 2" by (rule to_double_half)
      then have "to_double x = x" by (simp only: xh)
      then show ?thesis using kb(1) by simp
    next
      case False
      then have "1 \<le> d1" using d1n by simp
      then have "(1::rat) \<le> of_int d1" by simp
      then have "1 / (2 * of_nat c) \<le> x - (of_int k - 1 / 2)" unfolding d1 using cpos by (simp add: field_simps)
      then show ?thesis using e small by linarith
    qed
    from lo up show ?thesis ..
  qed
  then have "Math_round (to_double x) = k" by (simp only: Math_round_eq_iff)
  then show ?thesis by (simp add: k_def x_def)
qed

lemma double_sum_exact:
  assumes "\<forall>p \<in> set ps. p \<in> \<int> \<and> 0 \<le> p" and "s \<in> \<int>" and "0 \<le> s" and "s + sum_list ps < 2 ^ 53"
  shows "double_sum s ps = s + sum_list ps"
  using assms
proof (induction ps arbitrary: s)
  case Nil
  then show ?case by (simp add: double_sum_def)
next
  case (Cons p ps)
  from Cons.prems have p: "p \<in> \<int>" "0 \<le> p" by simp_all
  have nn: "0 \<le> sum_list ps" using Cons.prems(1) by (intro sum_list_nonneg) simp
  from p Cons.prems(2) obtain m where m: "s + p = of_int m" by (metis Ints_add Ints_cases)
  have "0 \<le> s + p" using p Cons.prems(3) by simp
  moreover have "s + p < 2 ^ 53" using Cons.prems(4) nn by simp
  ultimately have "(of_int 0 :: rat) \<le> of_int m" "(of_int m :: rat) < of_int (2 ^ 53)" by (simp_all add: m)
  then have "0 \<le> m" "m < 2 ^ 53" by (simp_all only: of_int_le_iff of_int_less_iff)
  then have "to_double (of_int m) = of_int m" by (intro to_double_of_int) simp
  then have f: "to_double (s + p) = s + p" by (simp only: m)
  have "double_sum (s + p) ps = s + p + sum_list ps"
  proof (rule Cons.IH)
    show "\<forall>p\<in>set ps. p \<in> \<int> \<and> 0 \<le> p" using Cons.prems(1) by simp
    show "s + p \<in> \<int>" using p Cons.prems(2) by simp
    show "0 \<le> s + p" using p Cons.prems(3) by simp
    show "s + p + sum_list ps < 2 ^ 53" using Cons.prems(4) by (simp add: add.assoc)
  qed
  then show ?case by (simp add: double_sum_def f add.assoc)
qed

lemma round_even_tie:
  "round_even (of_int n + 1 / 2) = (if even n then n else n + 1)"
proof -
  have "\<lfloor>of_int n + (1 / 2 :: rat)\<rfloor> = n" by linarith
  then show ?thesis by (simp add: round_even_def Let_def)
qed

lemma to_double_idem [simp]: "to_double (to_double x) = to_double x"
proof (cases "x = 0")
  case True
  then show ?thesis by simp
next
  case nz: False
  then have pos: "0 < \<bar>x\<bar>" by simp
  define k where "k = ilog2 \<bar>x\<bar>"
  define e where "e = max (k - 52) (- 1074)"
  define m where "m = round_even (x / 2 powi e)"
  have fx: "to_double x = of_int m * 2 powi e"
    using nz by (simp add: to_double_def Let_def m_def e_def k_def)
  have e1: "- 1074 \<le> e" and e2: "k - 52 \<le> e" by (simp_all add: e_def)
  have "\<bar>x\<bar> < 2 powi (k + 1)" using ilog2_bounds(2) [OF pos] by (simp add: k_def)
  also have "(2::rat) powi (k + 1) \<le> 2 powi (53 + e)" using e2 by (subst powi2_le_iff) simp
  also have "\<dots> = 2 ^ 53 * 2 powi e" by (simp add: power_int_add)
  finally have "\<bar>x\<bar> / 2 powi e < 2 ^ 53" by (simp add: pos_divide_less_eq)
  then have y: "\<bar>x / 2 powi e\<bar> < 2 ^ 53" by simp
  have "\<bar>of_int m - x / 2 powi e\<bar> \<le> 1 / 2" unfolding m_def by (rule round_even_near)
  then have "\<bar>(of_int m :: rat)\<bar> < 2 ^ 53 + 1" using y by linarith
  then have "\<bar>(of_int m :: rat)\<bar> < of_int (2 ^ 53 + 1)" by simp
  then have "(of_int \<bar>m\<bar> :: rat) < of_int (2 ^ 53 + 1)" by simp
  then have "\<bar>m\<bar> < 2 ^ 53 + 1" by (simp only: of_int_less_iff)
  then consider "\<bar>m\<bar> < 2 ^ 53" | "m = 2 ^ 53" | "m = - (2 ^ 53)" by linarith
  then have "to_double (of_int m * 2 powi e) = of_int m * 2 powi e"
  proof cases
    case 1
    then show ?thesis using e1 by (rule to_double_exact)
  next
    case 2
    have "(of_int m :: rat) * 2 powi e = of_int (2 ^ 52) * 2 powi (e + 1)"
      by (simp add: 2 power_int_add)
    moreover have "to_double (of_int (2 ^ 52) * 2 powi (e + 1)) = of_int (2 ^ 52) * 2 powi (e + 1)"
      using e1 by (intro to_double_exact) simp_all
    ultimately show ?thesis by (simp only:)
  next
    case 3
    have "(of_int m :: rat) * 2 powi e = of_int (- (2 ^ 52)) * 2 powi (e + 1)"
      by (simp add: 3 power_int_add)
    moreover have "to_double (of_int (- (2 ^ 52)) * 2 powi (e + 1)) = of_int (- (2 ^ 52)) * 2 powi (e + 1)"
      using e1 by (intro to_double_exact) simp_all
    ultimately show ?thesis by (simp only:)
  qed
  then show ?thesis by (simp only: fx)
qed

lemma to_double_in_binade:
  fixes k :: nat
  assumes "2 ^ k \<le> \<bar>x\<bar>" and "\<bar>x\<bar> < 2 * 2 ^ k" and "k \<le> 52"
  shows "to_double x = of_int (round_even (x * 2 ^ (52 - k))) / 2 ^ (52 - k)"
proof -
  have a: "2 powi int k \<le> \<bar>x\<bar>" using assms(1) by simp
  have b: "\<bar>x\<bar> < 2 powi (int k + 1)" using assms(2) by (simp add: power_int_add)
  have e: "max (int k - 52) (- 1074) = - int (52 - k)" using assms(3) by simp
  have p: "(2::rat) powi (- int (52 - k)) = 1 / 2 ^ (52 - k)"
    by (simp add: power_int_minus field_simps)
  show ?thesis unfolding to_double_binade [OF a b] e p by simp
qed

lemma sum_list_Ints: "\<forall>p \<in> set ps. p \<in> \<int> \<Longrightarrow> sum_list ps \<in> (\<int> :: rat set)"
  by (induction ps) simp_all

lemma whole_percentages_exact:
  assumes "whole_percentages ps" and "0 < length ps"
  shows "Math_round (to_double (double_sum 0 ps / of_nat (length ps)))
           = Math_round (sum_list ps / of_nat (length ps))"
proof -
  have all: "\<forall>p \<in> set ps. p \<in> \<int> \<and> 0 \<le> p"
  proof
    fix p assume "p \<in> set ps"
    with assms(1) have "of_int \<lfloor>p\<rfloor> = p" and "0 \<le> p"
      by (simp_all add: whole_percentages_def list_all_iff)
    then show "p \<in> \<int> \<and> 0 \<le> p" by (metis Ints_of_int)
  qed
  from assms(1) have lt: "sum_list ps < 2 ^ 52"
    by (simp add: whole_percentages_def)
  have "double_sum 0 ps = 0 + sum_list ps"
    by (rule double_sum_exact) (use all lt in simp_all)
  then have ds: "double_sum 0 ps = sum_list ps" by simp
  from all have "sum_list ps \<in> \<int>" by (intro sum_list_Ints) simp
  then obtain t where t: "sum_list ps = of_int t" by (rule Ints_cases)
  have "0 \<le> sum_list ps" using all by (intro sum_list_nonneg) simp
  then have "(of_int 0 :: rat) \<le> of_int t" by (simp add: t)
  then have t0: "0 \<le> t" by (simp only: of_int_le_iff)
  have "(of_int t :: rat) < of_int (2 ^ 52)" using lt by (simp add: t)
  then have t52: "t < 2 ^ 52" by (simp only: of_int_less_iff)
  from t0 t52 assms(2) show ?thesis
    unfolding ds t by (rule Math_round_quotient)
qed

subsection \<open>The functions\<close>

lemma sorted_desc_sort_key:
  fixes f :: "'a \<Rightarrow> 'b::linordered_idom"
  shows "sorted_wrt (\<lambda>a b. f a \<ge> f b) (sort_key (\<lambda>r. - f r) xs)"
proof -
  have "sorted (map (\<lambda>r. - f r) (sort_key (\<lambda>r. - f r) xs))"
    by (rule sorted_sort_key)
  then show ?thesis
    by (simp add: sorted_map)
qed

lemma num_or_simps [simp]:
  "num_or None d = d" "num_or (Some 0) d = d" "v \<noteq> 0 \<Longrightarrow> num_or (Some v) d = v"
  by (simp_all add: num_or_def)

lemma num_or_zero: "num_or x 0 = (case x of None \<Rightarrow> 0 | Some v \<Rightarrow> v)"
  by (simp add: num_or_def split: option.splits)

lemma str_or_simps [simp]:
  "str_or None d = d" "str_or (Some []) d = d" "s \<noteq> [] \<Longrightarrow> str_or (Some s) d = s"
  by (simp_all add: str_or_def)

lemma String_of_digit: "n < 10 \<Longrightarrow> String_of n = [digit_unit n]"
  by (simp add: String_of.simps)

lemma map_of_accumulate:
  "map_of (accumulate k p kvs) y =
     (if y = k then add_evidence (map_of kvs k) [p] else map_of kvs y)"
  by (induction kvs) (auto simp: add_evidence_def double_sum_def)

lemma keys_accumulate:
  "map fst (accumulate k p kvs) =
     (if k \<in> fst ` set kvs then map fst kvs else map fst kvs @ [k])"
  by (induction kvs) (auto split: if_splits)

lemma distinct_accumulate:
  "distinct (map fst kvs) \<Longrightarrow> distinct (map fst (accumulate k p kvs))"
  by (simp add: keys_accumulate)

lemma add_evidence_append:
  "add_evidence (add_evidence acc ps) qs = add_evidence acc (ps @ qs)"
  by (auto simp: add_evidence_def double_sum_def split: option.splits)

lemma add_evidence_Nil [simp]: "add_evidence acc [] = acc"
  by (simp add: add_evidence_def)

lemma map_of_cooc_step:
  "map_of (cooc_step S scores row) y = add_evidence (map_of scores y) (contribution S y row)"
  by (auto simp: cooc_step_def Let_def map_of_accumulate contribution_def add_evidence_append)

lemma distinct_cooc_step:
  "distinct (map fst scores) \<Longrightarrow> distinct (map fst (cooc_step S scores row))"
  by (simp add: cooc_step_def Let_def distinct_accumulate)

lemma map_of_foldl_cooc_step:
  "map_of (foldl (cooc_step S) scores rows) y =
     add_evidence (map_of scores y) (contributions S rows y)"
proof (induction rows arbitrary: scores)
  case Nil
  then show ?case by (simp add: contributions_def)
next
  case (Cons row rows)
  have "map_of (foldl (cooc_step S) (cooc_step S scores row) rows) y =
          add_evidence (map_of (cooc_step S scores row) y) (contributions S rows y)"
    by (rule Cons.IH)
  then show ?case
    by (simp add: map_of_cooc_step add_evidence_append contributions_def)
qed

lemma distinct_foldl_cooc_step:
  "distinct (map fst scores) \<Longrightarrow> distinct (map fst (foldl (cooc_step S) scores rows))"
  by (induction rows arbitrary: scores) (simp_all add: distinct_cooc_step)

lemma map_of_coocScores:
  "map_of (coocScores d sel) y = add_evidence None (contributions (set sel) (cooccurrences d) y)"
  by (simp add: coocScores_def map_of_foldl_cooc_step)

lemma distinct_coocScores: "distinct (map fst (coocScores d sel))"
  by (simp add: coocScores_def distinct_foldl_cooc_step)

lemma is_array_index_code [code]: "is_array_index k \<longleftrightarrow> int k < 4294967295"
  by (simp add: is_array_index_def)

lemma set_object_entries [simp]: "set (object_entries kvs) = set kvs"
  by (auto simp: object_entries_def)

lemma mem_coocScores:
  "(y, v) \<in> set (coocScores d sel) \<longleftrightarrow>
     contributions (set sel) (cooccurrences d) y \<noteq> [] \<and>
     v = \<lparr>total = double_sum 0 (contributions (set sel) (cooccurrences d) y),
          count = length (contributions (set sel) (cooccurrences d) y)\<rparr>"
proof -
  have "(y, v) \<in> set (coocScores d sel) \<longleftrightarrow> map_of (coocScores d sel) y = Some v"
    using distinct_coocScores [of d sel] by simp
  then show ?thesis
    by (auto simp: map_of_coocScores add_evidence_def)
qed

lemma mem_supported:
  "(y, v) \<in> set (supported d sel) \<longleftrightarrow>
     2 \<le> length (contributions (set sel) (cooccurrences d) y) \<and>
     v = \<lparr>total = double_sum 0 (contributions (set sel) (cooccurrences d) y),
          count = length (contributions (set sel) (cooccurrences d) y)\<rparr>"
  by (auto simp: supported_def mem_coocScores)

lemma length_contribution:
  "length (contribution S y row) = (if contributes S y row then 1 else 0)"
  by (auto simp: contribution_def contributes_def)

lemma length_contributions:
  "length (contributions S rows y) = length (filter (contributes S y) rows)"
  by (induction rows) (simp_all add: contributions_def length_contribution)

lemma evidence_sources_image:
  "evidence_sources S rows y = other_side y ` set (filter (contributes S y) rows)"
proof (rule set_eqI)
  fix s
  show "s \<in> evidence_sources S rows y \<longleftrightarrow> s \<in> other_side y ` set (filter (contributes S y) rows)"
    by (auto simp: evidence_sources_def contributes_def other_side_def image_iff)
qed

lemma card_sources_le:
  "card (evidence_sources S rows y) \<le> length (contributions S rows y)"
proof -
  have "card (other_side y ` set (filter (contributes S y) rows))
          \<le> card (set (filter (contributes S y) rows))"
    by (rule card_image_le) simp
  also have "\<dots> \<le> length (filter (contributes S y) rows)"
    by (rule card_length)
  finally show ?thesis
    by (simp add: evidence_sources_image length_contributions)
qed

lemma other_side_pair:
  assumes "contributes S y row"
  shows "{symptom_id_a row, symptom_id_b row} = {other_side y row, y}"
  using assms by (auto simp: contributes_def other_side_def)

lemma card_sources_eq:
  assumes "each_pair_once rows"
  shows "card (evidence_sources S rows y) = length (contributions S rows y)"
proof -
  let ?P = "\<lambda>row. {symptom_id_a row, symptom_id_b row}"
  let ?C = "filter (contributes S y) rows"
  from assms have d: "distinct (map ?P rows)"
    by (simp add: each_pair_once_def)
  then have dr: "distinct rows" and inj: "inj_on ?P (set rows)"
    by (simp_all add: distinct_map)
  have "inj_on (other_side y) (set ?C)"
  proof (rule inj_onI)
    fix r1 r2
    assume r1: "r1 \<in> set ?C" and r2: "r2 \<in> set ?C"
      and eq: "other_side y r1 = other_side y r2"
    from r1 have "contributes S y r1" by simp
    then have p1: "?P r1 = {other_side y r1, y}" by (rule other_side_pair)
    from r2 have "contributes S y r2" by simp
    then have p2: "?P r2 = {other_side y r2, y}" by (rule other_side_pair)
    note p1 p2
    with eq have "?P r1 = ?P r2" by simp
    moreover from r1 r2 have "r1 \<in> set rows" "r2 \<in> set rows" by simp_all
    ultimately show "r1 = r2" using inj by (simp add: inj_on_def)
  qed
  then have "card (other_side y ` set ?C) = card (set ?C)"
    by (rule card_image)
  also have "\<dots> = length ?C"
    by (rule distinct_card) (simp add: dr)
  finally show ?thesis
    by (simp add: evidence_sources_image length_contributions)
qed

lemma supported_both_directions:
  "supported both_directions [1] = [(3, \<lparr>total = 185, count = 2\<rparr>)]"
  by (simp add: supported_def coocScores_def both_directions_def no_data_def cooc_step_def
      object_entries_def is_array_index_def)

lemma supported_cooc_scenario:
  "supported cooc_scenario [1, 2] = [(3, \<lparr>total = 110, count = 2\<rparr>)]"
  by (simp add: supported_def coocScores_def cooc_scenario_def no_data_def cooc_step_def
      object_entries_def is_array_index_def)

lemma to_double_796: "to_double (398 / 5) = 2800676018271027 / 35184372088832"
proof -
  have "round_even (398 / 5 * 2 ^ (52 - 6)) = 5601352036542054"
    by (rule round_even_eqI) simp
  then show ?thesis using to_double_in_binade [of 6 "398 / 5"] by simp
qed

lemma to_double_574: "to_double (287 / 5) = 8078331831595827 / 140737488355328"
proof -
  have "round_even (287 / 5 * 2 ^ (52 - 5)) = 8078331831595827"
    by (rule round_even_eqI) simp
  then show ?thesis using to_double_in_binade [of 5 "287 / 5"] by simp
qed

lemma to_double_796_574: "to_double (19281035904679935 / 140737488355328) = 137"
proof -
  have "round_even (19281035904679935 / 140737488355328 * 2 ^ (52 - 7)) = 4820258976169984"
    by (rule round_even_eqI) simp
  then show ?thesis using to_double_in_binade [of 7 "19281035904679935 / 140737488355328"] by simp
qed

lemma to_double_214: "to_double (107 / 5) = 3011782250804019 / 140737488355328"
proof -
  have "round_even (107 / 5 * 2 ^ (52 - 4)) = 6023564501608038"
    by (rule round_even_eqI) simp
  then show ?thesis using to_double_in_binade [of 4 "107 / 5"] by simp
qed

lemma to_double_433: "to_double (433 / 10) = 3046966622892851 / 70368744177664"
proof -
  have "round_even (433 / 10 * 2 ^ (52 - 5)) = 6093933245785702"
    by (rule round_even_eqI) simp
  then show ?thesis using to_double_in_binade [of 5 "433 / 10"] by simp
qed

lemma to_double_448: "to_double (224 / 5) = 3152519739159347 / 70368744177664"
proof -
  have "round_even (224 / 5 * 2 ^ (52 - 5)) = 6305039478318694"
    by (rule round_even_eqI) simp
  then show ?thesis using to_double_in_binade [of 5 "224 / 5"] by simp
qed

lemma to_double_214_433:
  "to_double (9105715496589721 / 140737488355328) = 1138214437073715 / 17592186044416"
proof -
  have "round_even (of_int 4552857748294860 + 1 / 2) = 4552857748294860"
    by (subst round_even_tie) simp
  then have "round_even (9105715496589721 / 140737488355328 * 2 ^ (52 - 6)) = 4552857748294860"
    by simp
  then show ?thesis using to_double_in_binade [of 6 "9105715496589721 / 140737488355328"] by simp
qed

lemma to_double_214_433_448:
  "to_double (7705377487454207 / 70368744177664) = 7705377487454207 / 70368744177664"
proof -
  have "round_even (of_int 7705377487454207) = 7705377487454207" by (rule round_even_of_int)
  then have "round_even (7705377487454207 / 70368744177664 * 2 ^ (52 - 6)) = 7705377487454207"
    by simp
  then show ?thesis using to_double_in_binade [of 6 "7705377487454207 / 70368744177664"] by simp
qed

lemma to_double_mean3:
  "to_double (7705377487454207 / 211106232532992) = 5136918324969471 / 140737488355328"
proof -
  have "round_even (7705377487454207 / 211106232532992 * 2 ^ (52 - 5)) = 5136918324969471"
    by (rule round_even_eqI) simp
  then show ?thesis using to_double_in_binade [of 5 "7705377487454207 / 211106232532992"] by simp
qed

lemma double_796: "to_double (2800676018271027 / 35184372088832) = 2800676018271027 / 35184372088832"
  using to_double_idem [of "398 / 5"] unfolding to_double_796 .

lemma double_214: "to_double (3011782250804019 / 140737488355328) = 3011782250804019 / 140737488355328"
  using to_double_idem [of "107 / 5"] unfolding to_double_214 .

lemmas decimal_simps = to_double_796 to_double_574 to_double_796_574 double_796
  to_double_214 to_double_433 to_double_448 double_214 to_double_214_433 to_double_214_433_448
  to_double_mean3

lemma supported_decimal_pair:
  "supported decimal_pair [1, 2] = [(3, \<lparr>total = 137, count = 2\<rparr>)]"
  by (simp add: supported_def coocScores_def decimal_pair_def no_data_def cooc_step_def
      object_entries_def is_array_index_def decimal_simps)

lemma supported_decimal_triple:
  "supported decimal_triple [1, 2, 4] =
     [(3, \<lparr>total = 7705377487454207 / 70368744177664, count = 3\<rparr>)]"
  by (simp add: supported_def coocScores_def decimal_triple_def no_data_def cooc_step_def
      object_entries_def is_array_index_def decimal_simps)

lemma avg_pct_supported:
  assumes "kv \<in> set (supported d sel)"
  shows "avg_pct (suggestion_of d kv) =
           Math_round (to_double
             (double_sum 0 (contributions (set sel) (cooccurrences d) (fst kv))
                / of_nat (length (contributions (set sel) (cooccurrences d) (fst kv)))))"
proof -
  obtain y v where kv: "kv = (y, v)" by (cases kv)
  with assms have "v = \<lparr>total = double_sum 0 (contributions (set sel) (cooccurrences d) y),
          count = length (contributions (set sel) (cooccurrences d) y)\<rparr>"
    by (simp add: mem_supported)
  with kv show ?thesis
    by (simp add: suggestion_of_def)
qed

lemma no_support_empty:
  assumes "\<forall>y. length (contributions (set sel) (cooccurrences d) y) < 2"
  shows "supported d sel = []"
proof (rule ccontr)
  assume "supported d sel \<noteq> []"
  then obtain kv where "kv \<in> set (supported d sel)"
    by (cases "supported d sel") auto
  then have "2 \<le> length (contributions (set sel) (cooccurrences d) (fst kv))"
    using mem_supported [of "fst kv" "snd kv" d sel] by simp
  with assms show False
    by (simp add: not_less [symmetric])
qed

lemma score_of_sel [simp]:
  "matched (score_of d S sp) = filter (\<lambda>i. i \<in> S) (symptom_ids sp)"
  "score (score_of d S sp) = length (filter (\<lambda>i. i \<in> S) (symptom_ids sp))"
  "matchedNames (score_of d S sp) =
     map (\<lambda>i. str_or (Option.bind (prevalence d i) prevalence_entry.symptom_name) [])
       (filter (\<lambda>i. i \<in> S) (symptom_ids sp))"
  "symptom_ids (score_of d S sp) = symptom_ids sp"
  "specialist_id (score_of d S sp) = specialist_id sp"
  "specialist_type (score_of d S sp) = specialist_type sp"
  "description (score_of d S sp) = description sp"
  "what_to_expect (score_of d S sp) = what_to_expect sp"
  "specialist.icon (score_of d S sp) = specialist.icon sp"
  by (simp_all add: score_of_def Let_def specialist.defs spec_score.defs)



lemma prevalence_of_one_symptom: "prevalence_of one_symptom a_stage 1 = fatigue_row"
  by (simp add: prevalence_of_def one_symptom_def no_data_def entry_or_empty_def
      stagePrevalence_def empty_entry_def fatigue_row_def js_str_def)

lemma set_prevalenceResults: "set (prevalenceResults d st sel) = prevalence_of d st ` set sel"
  by (simp add: prevalenceResults_def)

lemma symptom_id_prevalence_of [simp]: "symptom_id (prevalence_of d st i) = i"
  by (simp add: prevalence_of_def Let_def)

lemma cooc_step_removeAll:
  assumes "symptom_id_a row \<noteq> i" and "symptom_id_b row \<noteq> i"
  shows "cooc_step (S - {i}) scores row = cooc_step S scores row"
  using assms by (simp add: cooc_step_def)

lemma coocScores_removeAll:
  assumes "\<forall>row \<in> set (cooccurrences d). symptom_id_a row \<noteq> i \<and> symptom_id_b row \<noteq> i"
  shows "coocScores d (removeAll i sel) = coocScores d sel"
  unfolding coocScores_def
proof (rule foldl_cong)
  fix scores row
  assume "row \<in> set (cooccurrences d)"
  with assms have "symptom_id_a row \<noteq> i" "symptom_id_b row \<noteq> i"
    by simp_all
  then show "cooc_step (set (removeAll i sel)) scores row = cooc_step (set sel) scores row"
    by (simp add: cooc_step_removeAll)
qed simp_all

lemma score_of_removeAll:
  assumes "i \<notin> set (symptom_ids sp)"
  shows "score_of d (S - {i}) sp = score_of d S sp"
proof -
  have "filter (\<lambda>j. j \<in> S - {i}) (symptom_ids sp) = filter (\<lambda>j. j \<in> S) (symptom_ids sp)"
    using assms by (intro filter_cong) auto
  then show ?thesis
    by (simp add: score_of_def)
qed

lemma specScores_removeAll:
  assumes "\<forall>sp \<in> set (specialists d). i \<notin> set (symptom_ids sp)"
  shows "specScores d (removeAll i sel) = specScores d sel"
proof -
  have eq: "map (score_of d (set (removeAll i sel))) (specialists d) =
          map (score_of d (set sel)) (specialists d)"
    using assms by (intro map_cong) (simp_all add: score_of_removeAll)
  show ?thesis
    unfolding specScores_def eq by (rule refl)
qed

lemma prevalence_of_unknown:
  assumes "prevalence d i = None" and "stagePrevalence d st i = None"
  shows "prevalence_of d st i = unknown_row i"
  using assms by (simp add: prevalence_of_def entry_or_empty_def empty_entry_def unknown_row_def)

lemma String_of_42: "String_of 42 = js_str ''42''"
  by (simp add: String_of.simps [of 42] String_of.simps [of 4] js_str_def digit_unit_def)

lemma prevalenceResults_long_name: "prevalenceResults long_name a_stage [1] = [long_name_row]"
  by (simp add: prevalenceResults_def prevalence_of_def long_name_def no_data_def
      entry_or_empty_def stagePrevalence_def a_stage_def long_name_row_def js_str_def)

lemma chart_row_of_fields:
  "name (chart_row_of d r) = chart_label (prevalence_row.symptom_name r)"
  "Mild (chart_row_of d r) =
     (case Option.bind (severity d (symptom_id r)) pct_mild of None \<Rightarrow> 0 | Some v \<Rightarrow> v)"
  "Moderate (chart_row_of d r) =
     (case Option.bind (severity d (symptom_id r)) pct_moderate of None \<Rightarrow> 0 | Some v \<Rightarrow> v)"
  "Severe (chart_row_of d r) =
     (case Option.bind (severity d (symptom_id r)) pct_severe of None \<Rightarrow> 0 | Some v \<Rightarrow> v)"
  by (simp_all add: chart_row_of_def Let_def empty_severity_def num_or_zero split: option.splits)

lemma stagePrevalence_drop:
  "stagePrevalence (drop_stage_entry d st i) st = (stagePrevalence d st)(i := None)"
  by (simp add: stagePrevalence_def drop_stage_entry_def)

lemma prevalence_drop [simp]: "prevalence (drop_stage_entry d st i) = prevalence d"
  by (simp add: drop_stage_entry_def)

lemma prevalence_of_drop_other:
  "j \<noteq> i \<Longrightarrow> prevalence_of (drop_stage_entry d st i) st j = prevalence_of d st j"
  by (simp add: prevalence_of_def stagePrevalence_drop entry_or_empty_def)

lemma prevalence_of_drop_zero:
  assumes "stagePrevalence d st i = Some e" and "prevalence_entry.percentage e = Some 0"
  shows "prevalence_of (drop_stage_entry d st i) st i = prevalence_of d st i"
  using assms
  by (simp add: prevalence_of_def stagePrevalence_drop entry_or_empty_def empty_entry_def)

subsection \<open>The store: what exists before a call is left as it is\<close>

lemma lookup_Some_iff: "lookup h a = Some c \<longleftrightarrow> a < length h \<and> h ! a = c"
  by (auto simp: lookup_def)

lemma lookup_prefix:
  assumes "prefix h h'" and "lookup h a = Some c"
  shows "lookup h' a = Some c"
proof -
  from assms(1) obtain cs where "h' = h @ cs" by (auto simp: prefix_def)
  with assms(2) show ?thesis
    by (auto simp: lookup_def nth_append split: if_splits)
qed

lemma lookup_append_new [simp]: "lookup (h @ [c]) (length h) = Some c"
  by (simp add: lookup_def)

lemma lookup_append_old: "a < length h \<Longrightarrow> lookup (h @ cs) a = lookup h a"
  by (simp add: lookup_def nth_append)

lemma lookup_update:
  "lookup (h[a := c]) b = (if b = a \<and> a < length h then Some c else lookup h b)"
  by (auto simp: lookup_def)

lemma prefix_update:
  assumes "prefix h0 h" and "length h0 \<le> a"
  shows "prefix h0 (h[a := c])"
proof -
  from assms(1) obtain cs where h: "h = h0 @ cs" by (auto simp: prefix_def)
  from assms(2) have "h[a := c] = h0 @ cs[a - length h0 := c]"
    by (simp add: h list_update_append)
  then show ?thesis by (simp add: prefix_def)
qed

lemma alloc_fst [simp]: "fst (alloc c h) = length h"
  by (simp add: alloc_def)

lemma alloc_snd [simp]: "snd (alloc c h) = h @ [c]"
  by (simp add: alloc_def)

lemma fresh_prefix: "fresh n h a \<Longrightarrow> prefix h h' \<Longrightarrow> fresh n h' a"
  using prefix_length_le [of h h'] by (auto simp: fresh_def)

lemma sort_at_prefix:
  assumes "prefix h0 h" and "length h0 \<le> arr"
  shows "prefix h0 (sort_at key arr h)"
  using assms by (auto simp: sort_at_def prefix_update split: option.splits cell.splits)

lemma length_sort_at [simp]: "length (sort_at key arr h) = length h"
  by (simp add: sort_at_def split: option.splits cell.splits)

lemma map_st_post:
  assumes f: "\<And>h x. I h \<Longrightarrow> prefix h (snd (f h x)) \<and> Q (snd (f h x)) (fst (f h x))"
    and inv: "\<And>h h'. I h \<Longrightarrow> prefix h h' \<Longrightarrow> I h'"
    and stable: "\<And>h h' b. Q h b \<Longrightarrow> prefix h h' \<Longrightarrow> Q h' b"
    and "I h"
  shows "prefix h (snd (map_st f xs h)) \<and>
         list_all (Q (snd (map_st f xs h))) (fst (map_st f xs h)) \<and>
         length (fst (map_st f xs h)) = length xs"
  using \<open>I h\<close>
proof (induction xs arbitrary: h)
  case Nil
  then show ?case by simp
next
  case (Cons x xs)
  obtain b h1 where fx: "f h x = (b, h1)" by (cases "f h x")
  obtain bs h2 where rest: "map_st f xs h1 = (bs, h2)" by (cases "map_st f xs h1")
  from f [OF Cons.prems, of x] fx have p1: "prefix h h1" and q1: "Q h1 b"
    by simp_all
  from inv [OF Cons.prems p1] have "I h1" .
  from Cons.IH [OF this] rest
  have p2: "prefix h1 h2" and q2: "list_all (Q h2) bs" and l: "length bs = length xs"
    by simp_all
  from q1 p2 have "Q h2 b" by (rule stable)
  with p1 p2 q2 l fx rest show ?case
    by (auto intro: prefix_order.trans)
qed

lemma list_all_sort_key [simp]: "list_all P (sort_key k xs) = list_all P xs"
  by (simp add: list_all_iff)

lemma fresh_array_sort_at:
  assumes "lookup h arr = Some (Refs as)" and "list_all (fresh n h) as" and "fresh n h arr"
  shows "fresh_array n (sort_at key arr h) arr"
proof -
  from assms(1) have lt: "arr < length h"
    by (simp add: lookup_Some_iff)
  have h': "sort_at key arr h = h[arr := Refs (sort_key (key h) as)]"
    using assms(1) by (simp add: sort_at_def)
  have "lookup (sort_at key arr h) arr = Some (Refs (sort_key (key h) as))"
    unfolding h' using lt by (simp add: lookup_update)
  moreover have "list_all (fresh n (sort_at key arr h)) (sort_key (key h) as)"
    using assms(2) by (simp add: list_all_iff fresh_def)
  moreover have "fresh n (sort_at key arr h) arr"
    using assms(3) by (simp add: fresh_def)
  ultimately show ?thesis
    by (auto simp: fresh_array_def)
qed

lemma fresh_array_prefix:
  assumes "fresh_array n h a" and "prefix h h'"
  shows "fresh_array n h' a"
proof -
  from assms(1) obtain as where as: "lookup h a = Some (Refs as)" "list_all (fresh n h) as"
    and a: "fresh n h a"
    by (auto simp: fresh_array_def)
  from assms(2) as(1) have "lookup h' a = Some (Refs as)"
    by (rule lookup_prefix)
  moreover from as(2) assms(2) have "list_all (fresh n h') as"
    by (auto simp: list_all_iff intro: fresh_prefix)
  moreover from a assms(2) have "fresh n h' a"
    by (rule fresh_prefix)
  ultimately show ?thesis
    by (auto simp: fresh_array_def)
qed

lemma alloc_objects:
  assumes "\<And>h x. \<exists>c. f h x = alloc c h"
  shows "prefix h (snd (map_st f xs h)) \<and>
         list_all (fresh (length h) (snd (map_st f xs h))) (fst (map_st f xs h)) \<and>
         length (fst (map_st f xs h)) = length xs"
proof (rule map_st_post [where I = "\<lambda>k. length h \<le> length k"])
  fix k :: store and x
  assume "length h \<le> length k"
  moreover from assms obtain c where "f k x = alloc c k" by blast
  ultimately show "prefix k (snd (f k x)) \<and> fresh (length h) (snd (f k x)) (fst (f k x))"
    by (simp add: fresh_def)
next
  fix k k' :: store
  assume "length h \<le> length k" and "prefix k k'"
  then show "length h \<le> length k'"
    using prefix_length_le [of k k'] by simp
next
  fix k k' b
  assume "fresh (length h) k b" and "prefix k k'"
  then show "fresh (length h) k' b" by (rule fresh_prefix)
next
  show "length h \<le> length h" by simp
qed

lemma fresh_array_alloc:
  assumes "prefix h h1" and "list_all (fresh (length h) h1) as"
  shows "fresh_array (length h) (h1 @ [Refs as]) (length h1)"
proof -
  from assms(1) have "length h \<le> length h1" by (rule prefix_length_le)
  moreover from assms(2) have "list_all (fresh (length h) (h1 @ [Refs as])) as"
    by (auto simp: list_all_iff fresh_def)
  ultimately show ?thesis
    by (simp add: fresh_array_def fresh_def)
qed

lemma prevalenceResults_st_frame:
  assumes "prevalenceResults_st d st sel h = (a, h')"
  shows "prefix h h' \<and> fresh_array (length h) h' a"
proof -
  let ?f = "\<lambda>h i. alloc (RowObj (prevalence_of d st i)) h"
  obtain rows h1 where m: "map_st ?f sel h = (rows, h1)" by (cases "map_st ?f sel h")
  have "prefix h (snd (map_st ?f sel h)) \<and>
        list_all (fresh (length h) (snd (map_st ?f sel h))) (fst (map_st ?f sel h)) \<and>
        length (fst (map_st ?f sel h)) = length sel"
    by (rule alloc_objects) blast
  with m have p1: "prefix h h1" and f1: "list_all (fresh (length h) h1) rows"
    by simp_all
  let ?h2 = "h1 @ [Refs rows]"
  from assms m have a: "a = length h1" and h': "h' = sort_at row_key (length h1) ?h2"
    by (auto simp: prevalenceResults_st_def alloc_def)
  from p1 f1 have fa: "fresh_array (length h) ?h2 (length h1)"
    by (rule fresh_array_alloc)
  from p1 have p2: "prefix h ?h2" by simp
  from p1 have "length h \<le> length h1" by (rule prefix_length_le)
  with p2 have "prefix h h'"
    unfolding h' by (rule sort_at_prefix)
  moreover have "fresh_array (length h) h' a"
    unfolding h' a
  proof (rule fresh_array_sort_at)
    show "lookup ?h2 (length h1) = Some (Refs rows)" by simp
    from fa show "list_all (fresh (length h) ?h2) rows"
      by (simp add: fresh_array_def)
    from fa show "fresh (length h) ?h2 (length h1)"
      by (simp add: fresh_array_def)
  qed
  ultimately show ?thesis by simp
qed

lemma fresh_weaken: "fresh n h a \<Longrightarrow> m \<le> n \<Longrightarrow> fresh m h a"
  by (simp add: fresh_def)

lemma fresh_array_new:
  assumes "n \<le> length h" and "list_all (fresh n h) as"
  shows "fresh_array n (h @ [Refs as]) (length h)"
proof -
  from assms(2) have "list_all (fresh n (h @ [Refs as])) as"
    by (auto simp: list_all_iff fresh_def)
  with assms(1) show ?thesis
    by (simp add: fresh_array_def fresh_def)
qed

lemma alloc_objects_from:
  assumes "\<And>h x. \<exists>c. f h x = alloc c h" and "n \<le> length h"
  shows "prefix h (snd (map_st f xs h)) \<and>
         list_all (fresh n (snd (map_st f xs h))) (fst (map_st f xs h))"
proof -
  have a: "prefix h (snd (map_st f xs h)) \<and>
         list_all (fresh (length h) (snd (map_st f xs h))) (fst (map_st f xs h)) \<and>
         length (fst (map_st f xs h)) = length xs"
    using assms(1) by (rule alloc_objects)
  then have "list_all (fresh n (snd (map_st f xs h))) (fst (map_st f xs h))"
    using assms(2) by (auto simp: list_all_iff intro: fresh_weaken)
  with a show ?thesis by simp
qed

lemma add_to_inv:
  assumes "acc_inv h0 dict h" and "length h0 \<le> a"
  shows "acc_inv h0 dict (add_to a pct h)"
proof (cases "\<exists>v. lookup h a = Some (ScoreObj v)")
  case False
  then have "add_to a pct h = h"
    by (auto simp: add_to_def split: option.splits cell.splits)
  with assms(1) show ?thesis by simp
next
  case True
  then obtain v where v: "lookup h a = Some (ScoreObj v)" by blast
  let ?c = "ScoreObj \<lparr>total = to_double (total v + pct), count = count v + 1\<rparr>"
  from v have h': "add_to a pct h = h[a := ?c]"
    by (simp add: add_to_def)
  from assms(1) have p: "prefix h0 h" and d: "length h0 \<le> dict"
    and k: "\<And>kvs. lookup h dict = Some (Props kvs) \<Longrightarrow> \<forall>kv \<in> set kvs. length h0 \<le> snd kv"
    by (simp_all add: acc_inv_def)
  from p assms(2) have "prefix h0 (h[a := ?c])"
    by (rule prefix_update)
  moreover have "\<forall>kv \<in> set kvs. length h0 \<le> snd kv"
    if "lookup (h[a := ?c]) dict = Some (Props kvs)" for kvs
  proof -
    from that have "lookup h dict = Some (Props kvs)"
      by (auto simp: lookup_update split: if_splits)
    then show ?thesis by (rule k)
  qed
  ultimately show ?thesis
    unfolding h' using d by (simp add: acc_inv_def)
qed

lemma accumulate_st_inv:
  assumes "acc_inv h0 dict h"
  shows "acc_inv h0 dict (accumulate_st dict k pct h)"
proof (cases "\<exists>kvs. lookup h dict = Some (Props kvs)")
  case False
  then have "accumulate_st dict k pct h = h"
    by (auto simp: accumulate_st_def split: option.splits cell.splits)
  with assms show ?thesis by simp
next
  case True
  then obtain kvs where kvs: "lookup h dict = Some (Props kvs)" by blast
  from assms have p: "prefix h0 h" and d: "length h0 \<le> dict"
    and old: "\<forall>kv \<in> set kvs. length h0 \<le> snd kv"
    using kvs by (simp_all add: acc_inv_def)
  from kvs have lt: "dict < length h" by (simp add: lookup_Some_iff)
  from p have len: "length h0 \<le> length h" by (rule prefix_length_le)
  show ?thesis
  proof (cases "map_of kvs k")
    case (Some a)
    then have "(k, a) \<in> set kvs" by (rule map_of_SomeD)
    with old have "length h0 \<le> a" by auto
    with assms have "acc_inv h0 dict (add_to a pct h)" by (rule add_to_inv)
    with kvs Some show ?thesis by (simp add: accumulate_st_def)
  next
    case None
    let ?h2 = "(h @ [ScoreObj \<lparr>total = 0, count = 0\<rparr>])[dict := Props (kvs @ [(k, length h)])]"
    from None kvs have step: "accumulate_st dict k pct h = add_to (length h) pct ?h2"
      by (simp add: accumulate_st_def alloc_def)
    from p have "prefix h0 (h @ [ScoreObj \<lparr>total = 0, count = 0\<rparr>])" by simp
    then have "prefix h0 ?h2" using d by (rule prefix_update)
    moreover have "lookup ?h2 dict = Some (Props (kvs @ [(k, length h)]))"
      using lt by (simp add: lookup_update)
    ultimately have "acc_inv h0 dict ?h2"
      using d old len by (auto simp: acc_inv_def)
    then have "acc_inv h0 dict (add_to (length h) pct ?h2)"
      using len by (rule add_to_inv)
    with step show ?thesis by simp
  qed
qed

lemma cooc_step_st_inv:
  assumes "acc_inv h0 dict h"
  shows "acc_inv h0 dict (cooc_step_st s dict h row)"
  using assms by (simp add: cooc_step_st_def Let_def accumulate_st_inv)

lemma foldl_cooc_step_st_inv:
  "acc_inv h0 dict h \<Longrightarrow> acc_inv h0 dict (foldl (cooc_step_st s dict) h rows)"
  by (induction rows arbitrary: h) (simp_all add: cooc_step_st_inv)

lemma entries_st_frame: "prefix h (snd (entries_st dict h))"
proof -
  let ?kvs = "case props_at h dict of Some kvs \<Rightarrow> kvs | None \<Rightarrow> []"
  let ?f = "\<lambda>h kv. alloc (PairObj (fst kv) (snd kv)) h"
  have "prefix h (snd (map_st ?f (object_entries ?kvs) h)) \<and>
        list_all (fresh (length h) (snd (map_st ?f (object_entries ?kvs) h)))
          (fst (map_st ?f (object_entries ?kvs) h)) \<and>
        length (fst (map_st ?f (object_entries ?kvs) h)) = length (object_entries ?kvs)"
    by (rule alloc_objects) blast
  then show ?thesis
    by (auto simp: entries_st_def Let_def split: prod.splits)
qed

lemma suggestion_st_alloc: "\<exists>c. suggestion_st d h p = alloc c h"
  by (auto simp: suggestion_st_def split: option.splits)

lemma cooccurringSymptoms_st_frame:
  assumes "cooccurringSymptoms_st d s h = (a, h')"
  shows "prefix h h' \<and> fresh_array (length h) h' a"
proof -
  let ?n = "length h"
  let ?h1 = "h @ [Props []]"
  let ?h2 = "foldl (cooc_step_st s ?n) ?h1 (cooccurrences d)"
  obtain entries h3 where e: "entries_st ?n ?h2 = (entries, h3)"
    by (cases "entries_st ?n ?h2")
  let ?h4 = "h3 @ [Refs (filter (well_supported h3) (refs_of h3 entries))]"
  obtain rows h5 where m: "map_st (suggestion_st d) (refs_of ?h4 (length h3)) ?h4 = (rows, h5)"
    by (cases "map_st (suggestion_st d) (refs_of ?h4 (length h3)) ?h4")
  let ?h6 = "h5 @ [Refs rows]"
  let ?h7 = "sort_at suggestion_key (length h5) ?h6"
  from assms e m have a: "a = length ?h7"
    and h': "h' = ?h7 @ [Refs (take 5 (refs_of ?h7 (length h5)))]"
    by (auto simp: cooccurringSymptoms_st_def alloc_def Let_def)
  have "acc_inv h ?n ?h1"
    by (simp add: acc_inv_def)
  then have "acc_inv h ?n ?h2"
    by (rule foldl_cooc_step_st_inv)
  then have p2: "prefix h ?h2"
    by (simp add: acc_inv_def)
  from entries_st_frame [of ?h2 ?n] e have "prefix ?h2 h3" by simp
  with p2 have p3: "prefix h h3" by (rule prefix_order.trans)
  then have p4: "prefix h ?h4" by simp
  then have n4: "?n \<le> length ?h4" by (rule prefix_length_le)
  have "prefix ?h4 (snd (map_st (suggestion_st d) (refs_of ?h4 (length h3)) ?h4)) \<and>
        list_all (fresh ?n (snd (map_st (suggestion_st d) (refs_of ?h4 (length h3)) ?h4)))
          (fst (map_st (suggestion_st d) (refs_of ?h4 (length h3)) ?h4))"
    using suggestion_st_alloc n4 by (rule alloc_objects_from)
  with m have p45: "prefix ?h4 h5" and f5: "list_all (fresh ?n h5) rows"
    by simp_all
  from p4 p45 have p5: "prefix h h5" by (rule prefix_order.trans)
  then have n5: "?n \<le> length h5" by (rule prefix_length_le)
  from n5 f5 have fa6: "fresh_array ?n ?h6 (length h5)"
    by (rule fresh_array_new)
  from p5 have p6: "prefix h ?h6" by simp
  from p6 n5 have p7: "prefix h ?h7" by (rule sort_at_prefix)
  have fa7: "fresh_array ?n ?h7 (length h5)"
  proof (rule fresh_array_sort_at)
    show "lookup ?h6 (length h5) = Some (Refs rows)" by simp
    from fa6 show "list_all (fresh ?n ?h6) rows" by (simp add: fresh_array_def)
    from fa6 show "fresh ?n ?h6 (length h5)" by (simp add: fresh_array_def)
  qed
  then obtain sorted where s: "lookup ?h7 (length h5) = Some (Refs sorted)"
    and fs: "list_all (fresh ?n ?h7) sorted"
    by (auto simp: fresh_array_def)
  from s have r: "refs_of ?h7 (length h5) = sorted"
    by (simp add: refs_of_def)
  from fs have "list_all (fresh ?n ?h7) (take 5 sorted)"
    by (auto simp: list_all_iff dest: in_set_takeD)
  with p7 have "fresh_array ?n (?h7 @ [Refs (take 5 sorted)]) (length ?h7)"
    using prefix_length_le [OF p7] by (intro fresh_array_new) simp_all
  moreover from p7 have "prefix h h'"
    unfolding h' by simp
  ultimately show ?thesis
    unfolding h' a r by simp
qed

lemma score_value_prefix:
  assumes "prefix h h'" and "b < length h"
  shows "score_value h' b = score_value h b"
proof -
  from assms(2) obtain c where c: "lookup h b = Some c"
    by (simp add: lookup_def)
  with assms(1) have "lookup h' b = Some c" by (rule lookup_prefix)
  with c show ?thesis by (simp add: score_value_def)
qed

lemma fresh_matches_prefix:
  assumes "fresh_matches n h b" and "prefix h h'"
  shows "fresh_matches n h' b"
proof -
  from assms(1) obtain i ty de wh ic ia ma na sc m names
    where b: "lookup h b = Some (SpecScoreObj i ty de wh ic ia ma na sc)"
      and m: "lookup h ma = Some (Numbers m)" "fresh n h ma"
      and nm: "lookup h na = Some (Strings names)" "fresh n h na"
    by (auto simp: fresh_matches_def)
  from assms(2) b have "lookup h' b = Some (SpecScoreObj i ty de wh ic ia ma na sc)"
    by (rule lookup_prefix)
  moreover from assms(2) m(1) have "lookup h' ma = Some (Numbers m)"
    by (rule lookup_prefix)
  moreover from assms(2) nm(1) have "lookup h' na = Some (Strings names)"
    by (rule lookup_prefix)
  moreover from m(2) nm(2) assms(2) have "fresh n h' ma" "fresh n h' na"
    by (auto intro: fresh_prefix)
  ultimately show ?thesis
    by (auto simp: fresh_matches_def)
qed

lemma fresh_matches_weaken: "fresh_matches n h b \<Longrightarrow> m \<le> n \<Longrightarrow> fresh_matches m h b"
  by (auto simp: fresh_matches_def fresh_def)

lemma fresh_array_weaken: "fresh_array n h a \<Longrightarrow> m \<le> n \<Longrightarrow> fresh_array m h a"
  by (auto simp: fresh_array_def list_all_iff intro: fresh_weaken)

lemma spec_obj_ok_prefix:
  assumes "spec_obj_ok n h b" and "prefix h h'"
  shows "spec_obj_ok n h' b"
proof -
  from assms(1) have f: "fresh n h b" by (simp add: spec_obj_ok_def)
  then have "b < length h" by (simp add: fresh_def)
  with assms(2) have "score_value h' b = score_value h b" by (rule score_value_prefix)
  with assms show ?thesis
    by (auto simp: spec_obj_ok_def intro: fresh_prefix fresh_matches_prefix)
qed

lemma score_of_st_ok:
  assumes "n \<le> length h"
  shows "prefix h (snd (score_of_st d s h a)) \<and>
         spec_obj_ok n (snd (score_of_st d s h a)) (fst (score_of_st d s h a))"
proof (cases "\<exists>i ty de wh ic ia. lookup h a = Some (SpecObj i ty de wh ic ia)")
  case False
  then have "score_of_st d s h a = alloc (Refs []) h"
    by (auto simp: score_of_st_def split: option.splits cell.splits)
  with assms show ?thesis
    by (simp add: spec_obj_ok_def fresh_def score_value_def)
next
  case True
  then obtain i ty de wh ic ia where c: "lookup h a = Some (SpecObj i ty de wh ic ia)"
    by blast
  let ?m = "filter (has h s) (case numbers_at h ia of Some xs \<Rightarrow> xs | None \<Rightarrow> [])"
  let ?names = "map (\<lambda>i. str_or (Option.bind (prevalence d i) prevalence_entry.symptom_name) []) ?m"
  let ?obj = "SpecScoreObj i ty de wh ic ia (length h) (length h + 1) (length ?m)"
  let ?h' = "h @ [Numbers ?m, Strings ?names, ?obj]"
  from c have r: "score_of_st d s h a = (length h + 2, ?h')"
    by (simp add: score_of_st_def alloc_def Let_def)
  have l0: "lookup ?h' (length h) = Some (Numbers ?m)"
    by (simp add: lookup_def)
  have l1: "lookup ?h' (length h + 1) = Some (Strings ?names)"
    by (simp add: lookup_def nth_append)
  have l2: "lookup ?h' (length h + 2) = Some ?obj"
    by (simp add: lookup_def nth_append)
  from assms have "fresh n ?h' (length h)" "fresh n ?h' (length h + 1)" "fresh n ?h' (length h + 2)"
    by (simp_all add: fresh_def)
  with l0 l1 l2 have "fresh_matches n ?h' (length h + 2)" and "fresh n ?h' (length h + 2)"
    unfolding fresh_matches_def by blast+
  then have "spec_obj_ok n ?h' (length h + 2)"
    by (simp add: spec_obj_ok_def)
  moreover have "prefix h ?h'"
    by (simp add: prefix_def)
  ultimately show ?thesis
    unfolding r by simp
qed

lemma specScores_st_frame:
  assumes "specScores_st d s specs h = (a, h')"
  shows "prefix h h' \<and> fresh_array (length h) h' a \<and>
         (\<exists>as. lookup h' a = Some (Refs as) \<and> list_all (fresh_matches (length h) h') as)"
proof -
  let ?n = "length h"
  obtain objs h1 where m: "map_st (score_of_st d s) (refs_of h specs) h = (objs, h1)"
    by (cases "map_st (score_of_st d s) (refs_of h specs) h")
  let ?h2 = "h1 @ [Refs objs]"
  let ?pos = "filter (\<lambda>a. 0 < score_value ?h2 a) objs"
  let ?h3 = "?h2 @ [Refs ?pos]"
  let ?h4 = "sort_at spec_score_key (length ?h2) ?h3"
  let ?sorted = "sort_key (spec_score_key ?h3) ?pos"
  have r2: "refs_of ?h2 (length h1) = objs"
    by (simp add: refs_of_def)
  have l3: "lookup ?h3 (length ?h2) = Some (Refs ?pos)"
    using lookup_append_new [of ?h2 "Refs ?pos"] by simp
  then have h4: "?h4 = ?h3[length ?h2 := Refs ?sorted]"
    by (simp add: sort_at_def)
  have l4: "lookup ?h4 (length ?h2) = Some (Refs ?sorted)"
    unfolding h4 by (simp add: lookup_update)
  then have r4: "refs_of ?h4 (length ?h2) = ?sorted"
    by (simp add: refs_of_def)
  from assms m have a: "a = length ?h4" and h': "h' = ?h4 @ [Refs (take 3 ?sorted)]"
    using r2 r4 by (auto simp: specScores_st_def alloc_def Let_def)
  have "prefix h (snd (map_st (score_of_st d s) (refs_of h specs) h)) \<and>
        list_all (spec_obj_ok ?n (snd (map_st (score_of_st d s) (refs_of h specs) h)))
          (fst (map_st (score_of_st d s) (refs_of h specs) h)) \<and>
        length (fst (map_st (score_of_st d s) (refs_of h specs) h)) = length (refs_of h specs)"
  proof (rule map_st_post [where I = "\<lambda>k. ?n \<le> length k"])
    fix k :: store and x
    assume "?n \<le> length k"
    then show "prefix k (snd (score_of_st d s k x)) \<and>
               spec_obj_ok ?n (snd (score_of_st d s k x)) (fst (score_of_st d s k x))"
      by (rule score_of_st_ok)
  next
    fix k k' :: store
    assume "?n \<le> length k" and "prefix k k'"
    then show "?n \<le> length k'"
      using prefix_length_le [of k k'] by simp
  next
    fix k k' b
    assume "spec_obj_ok ?n k b" and "prefix k k'"
    then show "spec_obj_ok ?n k' b" by (rule spec_obj_ok_prefix)
  qed simp
  with m have p1: "prefix h h1" and ok1: "list_all (spec_obj_ok ?n h1) objs"
    by simp_all
  have p12: "prefix h1 ?h3"
    by (simp add: prefix_def)
  have p14: "prefix h1 ?h4"
    using p12 by (rule sort_at_prefix) simp
  then have p1': "prefix h1 h'"
    unfolding h' by (rule prefix_prefix)
  from p1 p1' have p: "prefix h h'" by (rule prefix_order.trans)
  have elems: "fresh ?n h' b \<and> fresh_matches ?n h' b" if "b \<in> set (take 3 ?sorted)" for b
  proof -
    from that have "b \<in> set ?sorted" by (rule in_set_takeD)
    then have b: "b \<in> set objs" and pos: "0 < score_value ?h2 b"
      by simp_all
    from ok1 b have ok: "spec_obj_ok ?n h1 b"
      by (simp add: list_all_iff)
    then have "b < length h1"
      by (simp add: spec_obj_ok_def fresh_def)
    then have "score_value ?h2 b = score_value h1 b"
      by (intro score_value_prefix) (simp_all add: prefix_def)
    with pos ok have "fresh ?n h1 b" "fresh_matches ?n h1 b"
      by (simp_all add: spec_obj_ok_def)
    with p1' show ?thesis
      by (auto intro: fresh_prefix fresh_matches_prefix)
  qed
  have la: "lookup h' a = Some (Refs (take 3 ?sorted))"
    unfolding h' a by (rule lookup_append_new)
  from p have "?n \<le> length h'" by (rule prefix_length_le)
  have "?n \<le> length h1" using p1 by (rule prefix_length_le)
  then have fa: "fresh ?n h' a"
    unfolding h' a by (simp add: fresh_def)
  from la elems fa have "fresh_array ?n h' a"
    by (auto simp: fresh_array_def list_all_iff)
  moreover from la elems
  have "\<exists>as. lookup h' a = Some (Refs as) \<and> list_all (fresh_matches ?n h') as"
    by (auto simp: list_all_iff)
  ultimately show ?thesis
    using p by simp
qed

lemma chart_row_st_alloc: "\<exists>c. chart_row_st d h p = alloc c h"
  by (auto simp: chart_row_st_def split: option.splits)

lemma severityChart_st_frame:
  assumes "severityChart_st d rows h = (a, h')"
  shows "prefix h h' \<and> fresh_array (length h) h' a"
proof -
  obtain cs h1 where m: "map_st (chart_row_st d) (refs_of h rows) h = (cs, h1)"
    by (cases "map_st (chart_row_st d) (refs_of h rows) h")
  have "prefix h (snd (map_st (chart_row_st d) (refs_of h rows) h)) \<and>
        list_all (fresh (length h) (snd (map_st (chart_row_st d) (refs_of h rows) h)))
          (fst (map_st (chart_row_st d) (refs_of h rows) h))"
    using chart_row_st_alloc by (rule alloc_objects_from) simp
  with m have p1: "prefix h h1" and f1: "list_all (fresh (length h) h1) cs"
    by simp_all
  from assms m have a: "a = length h1" and h': "h' = h1 @ [Refs cs]"
    by (auto simp: severityChart_st_def alloc_def)
  from p1 have "length h \<le> length h1" by (rule prefix_length_le)
  then have "fresh_array (length h) (h1 @ [Refs cs]) (length h1)"
    using f1 by (rule fresh_array_new)
  moreover from p1 have "prefix h (h1 @ [Refs cs])" by simp
  ultimately show ?thesis
    unfolding a h' by simp
qed

lemma stable_readerD:
  "stable_reader rd \<Longrightarrow> prefix h h' \<Longrightarrow> rd h a = Some x \<Longrightarrow> rd h' a = Some x"
  unfolding stable_reader_def by blast

lemma stable_numbers_at: "stable_reader numbers_at"
  unfolding stable_reader_def numbers_at_def
  by (auto split: option.splits cell.splits dest: lookup_prefix)

lemma stable_strings_at: "stable_reader strings_at"
  unfolding stable_reader_def strings_at_def
  by (auto split: option.splits cell.splits dest: lookup_prefix)

lemma stable_refs_at: "stable_reader refs_at"
  unfolding stable_reader_def refs_at_def
  by (auto split: option.splits cell.splits dest: lookup_prefix)

lemma stable_props_at: "stable_reader props_at"
  unfolding stable_reader_def props_at_def
  by (auto split: option.splits cell.splits dest: lookup_prefix)

lemma stable_entry_at: "stable_reader entry_at"
  unfolding stable_reader_def entry_at_def
  by (auto split: option.splits cell.splits dest: lookup_prefix)

lemma stable_severity_at: "stable_reader severity_at"
  unfolding stable_reader_def severity_at_def
  by (auto split: option.splits cell.splits dest: lookup_prefix)

lemma stable_cooc_at: "stable_reader cooc_at"
  unfolding stable_reader_def cooc_at_def
  by (auto split: option.splits cell.splits dest: lookup_prefix)

lemma stable_row_at: "stable_reader row_at"
  unfolding stable_reader_def row_at_def
  by (auto split: option.splits cell.splits dest: lookup_prefix)

lemma stable_specialist_at: "stable_reader specialist_at"
  unfolding stable_reader_def
proof (intro allI impI)
  fix h h' :: store and a x
  assume p: "prefix h h'" and r: "specialist_at h a = Some x"
  from r obtain i ty de wh ic ia ids
    where c: "lookup h a = Some (SpecObj i ty de wh ic ia)" and n: "numbers_at h ia = Some ids"
      and x: "x = \<lparr>specialist_id = i, specialist_type = ty, description = de,
                   what_to_expect = wh, icon = ic, symptom_ids = ids\<rparr>"
    by (auto simp: specialist_at_def split: option.splits cell.splits)
  from p c have "lookup h' a = Some (SpecObj i ty de wh ic ia)" by (rule lookup_prefix)
  moreover from stable_numbers_at p n have "numbers_at h' ia = Some ids" by (rule stable_readerD)
  ultimately show "specialist_at h' a = Some x"
    by (simp add: specialist_at_def x)
qed

lemma those_stable:
  assumes "stable_reader rd" and "prefix h h'"
  shows "those (map (rd h) as) = Some xs \<Longrightarrow> those (map (rd h') as) = Some xs"
proof (induction as arbitrary: xs)
  case Nil
  then show ?case by simp
next
  case (Cons a as)
  from Cons.prems obtain y ys where y: "rd h a = Some y" and ys: "those (map (rd h) as) = Some ys"
    and xs: "xs = y # ys"
    by (auto split: option.splits)
  from assms y have "rd h' a = Some y" by (rule stable_readerD)
  moreover from ys have "those (map (rd h') as) = Some ys" by (rule Cons.IH)
  ultimately show ?case by (simp add: xs)
qed

lemma stable_objects_at:
  assumes "stable_reader rd"
  shows "stable_reader (objects_at rd)"
  unfolding stable_reader_def
proof (intro allI impI)
  fix h h' :: store and a xs
  assume p: "prefix h h'" and r: "objects_at rd h a = Some xs"
  from r obtain as where as: "refs_at h a = Some as" and t: "those (map (rd h) as) = Some xs"
    by (auto simp: objects_at_def split: Option.bind_splits)
  from stable_refs_at p as have "refs_at h' a = Some as" by (rule stable_readerD)
  moreover from assms p t have "those (map (rd h') as) = Some xs" by (rule those_stable)
  ultimately show "objects_at rd h' a = Some xs"
    by (simp add: objects_at_def)
qed

lemma stable_table_at:
  assumes "stable_reader rd"
  shows "stable_reader (table_at rd)"
  unfolding stable_reader_def
proof (intro allI impI)
  fix h h' :: store and a t
  assume p: "prefix h h'" and r: "table_at rd h a = Some t"
  let ?rd = "\<lambda>h kv. map_option (Pair (fst kv)) (rd h (snd kv))"
  from r obtain kvs es where kvs: "props_at h a = Some kvs"
    and es: "those (map (?rd h) kvs) = Some es" and t: "t = map_of es"
    by (auto simp: table_at_def split: Option.bind_splits)
  have es': "those (map (?rd h') kvs) = Some es"
    using es
  proof (induction kvs arbitrary: es)
    case Nil
    then show ?case by simp
  next
    case (Cons kv kvs)
    from Cons.prems obtain y ys where y: "rd h (snd kv) = Some y"
      and ys: "those (map (?rd h) kvs) = Some ys" and es: "es = (fst kv, y) # ys"
      by (auto split: option.splits)
    from assms p y have "rd h' (snd kv) = Some y" by (rule stable_readerD)
    moreover from ys have "those (map (?rd h') kvs) = Some ys" by (rule Cons.IH)
    ultimately show ?case by (simp add: es)
  qed
  from stable_props_at p kvs have "props_at h' a = Some kvs" by (rule stable_readerD)
  with es' show "table_at rd h' a = Some t"
    by (simp add: table_at_def t)
qed

lemma load_dataset_stable:
  assumes "prefix h h'" and "load_dataset h refs = Some d"
  shows "load_dataset h' refs = Some d"
proof -
  from assms(2) obtain p s c sp sv
    where p: "table_at entry_at h (prevalence_ref refs) = Some p"
      and s: "table_at (table_at entry_at) h (prevalenceByStage_ref refs) = Some s"
      and c: "objects_at cooc_at h (cooccurrences_ref refs) = Some c"
      and sp: "objects_at specialist_at h (specialists_ref refs) = Some sp"
      and sv: "table_at severity_at h (severity_ref refs) = Some sv"
      and d: "d = \<lparr>prevalence = p, prevalenceByStage = s, cooccurrences = c, specialists = sp,
                   severity = sv\<rparr>"
    by (auto simp: load_dataset_def split: Option.bind_splits)
  have "table_at entry_at h' (prevalence_ref refs) = Some p"
    using stable_table_at [OF stable_entry_at] assms(1) p by (rule stable_readerD)
  moreover have "table_at (table_at entry_at) h' (prevalenceByStage_ref refs) = Some s"
    using stable_table_at [OF stable_table_at [OF stable_entry_at]] assms(1) s
    by (rule stable_readerD)
  moreover have "objects_at cooc_at h' (cooccurrences_ref refs) = Some c"
    using stable_objects_at [OF stable_cooc_at] assms(1) c by (rule stable_readerD)
  moreover have "objects_at specialist_at h' (specialists_ref refs) = Some sp"
    using stable_objects_at [OF stable_specialist_at] assms(1) sp by (rule stable_readerD)
  moreover have "table_at severity_at h' (severity_ref refs) = Some sv"
    using stable_table_at [OF stable_severity_at] assms(1) sv by (rule stable_readerD)
  ultimately show ?thesis
    by (simp add: load_dataset_def d)
qed

lemmas st_defs = Results_st_def load_dataset_def table_at_def objects_at_def props_at_def refs_at_def
  entry_at_def severity_at_def cooc_at_def specialist_at_def numbers_at_def lookup_def
  prevalenceResults_st_def alloc_def sort_at_def row_key_def row_at_def
  cooccurringSymptoms_st_def cooc_step_st_def accumulate_st_def add_to_def has_def entries_st_def
  object_entries_def is_array_index_def well_supported_def pair_at_def score_at_def refs_of_def
  suggestion_st_def suggestion_key_def suggestion_at_def specScores_st_def score_of_st_def
  score_value_def spec_score_key_def severityChart_st_def chart_row_st_def

lemma ex_run: "\<exists>h'. Results_st ex_refs a_stage ex_store = Some (ex_out, h')"
  by (simp add: st_defs ex_refs_def ex_store_def ex_out_def a_stage_def Let_def nth_append
      del: One_nat_def)

subsection \<open>The store: what the new arrays hold\<close>

lemma insort_key_map:
  "map v (insort_key (\<lambda>b. k (v b)) x xs) = insort_key k (v x) (map v xs)"
  by (induction xs) simp_all

lemma sort_key_map: "map v (sort_key (\<lambda>b. k (v b)) xs) = sort_key k (map v xs)"
  by (induction xs) (simp_all add: insort_key_map)

lemma insort_key_cong_set:
  assumes "\<forall>y \<in> insert x (set xs). f y = g y"
  shows "insort_key f x xs = insort_key g x xs"
  using assms by (induction xs) simp_all

lemma sort_key_cong_set:
  assumes "\<forall>x \<in> set xs. f x = g x"
  shows "sort_key f xs = sort_key g xs"
  using assms
proof (induction xs)
  case Nil
  then show ?case by simp
next
  case (Cons x xs)
  then have "sort_key f xs = sort_key g xs" by simp
  moreover have "insort_key f x (sort_key g xs) = insort_key g x (sort_key g xs)"
    using Cons.prems by (intro insort_key_cong_set) simp
  ultimately show ?case by simp
qed

lemma those_map_Some:
  assumes "\<forall>b \<in> set bs. rd b = Some (v b)"
  shows "those (map rd bs) = Some (map v bs)"
  using assms by (induction bs) simp_all

lemma list_all2_readD:
  assumes "list_all2 (\<lambda>x b. rd b = Some (g x)) xs bs"
  shows "(\<forall>b \<in> set bs. rd b = Some (the (rd b))) \<and> map (\<lambda>b. the (rd b)) bs = map g xs"
  using assms by (induction rule: list_all2_induct) simp_all

lemma map_st_rel:
  assumes f: "\<And>h x. I h \<Longrightarrow> P x \<Longrightarrow>
                prefix h (snd (f h x)) \<and> R (snd (f h x)) x (fst (f h x))"
    and inv: "\<And>h h'. I h \<Longrightarrow> prefix h h' \<Longrightarrow> I h'"
    and stable: "\<And>h h' x b. R h x b \<Longrightarrow> prefix h h' \<Longrightarrow> R h' x b"
    and "I h" and "\<forall>x \<in> set xs. P x"
  shows "prefix h (snd (map_st f xs h)) \<and>
         list_all2 (R (snd (map_st f xs h))) xs (fst (map_st f xs h)) \<and>
         I (snd (map_st f xs h))"
  using \<open>I h\<close> \<open>\<forall>x \<in> set xs. P x\<close>
proof (induction xs arbitrary: h)
  case Nil
  then show ?case by simp
next
  case (Cons x xs)
  obtain b h1 where fx: "f h x = (b, h1)" by (cases "f h x")
  obtain bs h2 where rest: "map_st f xs h1 = (bs, h2)" by (cases "map_st f xs h1")
  from Cons.prems have "P x" and Pxs: "\<forall>x \<in> set xs. P x" by simp_all
  from f [OF Cons.prems(1) \<open>P x\<close>] fx have p1: "prefix h h1" and r1: "R h1 x b"
    by simp_all
  from inv [OF Cons.prems(1) p1] have "I h1" .
  from Cons.IH [OF this Pxs] rest
  have p2: "prefix h1 h2" and r2: "list_all2 (R h2) xs bs" and i2: "I h2"
    by simp_all
  from r1 p2 have "R h2 x b" by (rule stable)
  with p1 p2 r2 i2 fx rest show ?case
    by (auto intro: prefix_order.trans)
qed

lemma row_at_new [simp]: "row_at (h @ [RowObj r]) (length h) = Some r"
  by (simp add: row_at_def)

lemma reader_lt:
  "row_at h a = Some r \<Longrightarrow> a < length h"
  "suggestion_at h a = Some s \<Longrightarrow> a < length h"
  "chart_at h a = Some c \<Longrightarrow> a < length h"
  "score_at h a = Some v \<Longrightarrow> a < length h"
  "pair_at h a = Some p \<Longrightarrow> a < length h"
  "spec_score_at h a = Some ss \<Longrightarrow> a < length h"
  by (auto simp: row_at_def suggestion_at_def chart_at_def score_at_def pair_at_def
      spec_score_at_def lookup_def split: if_splits option.splits cell.splits)

lemma pipeline_sort:
  assumes rd: "\<forall>b \<in> set bs. rd b = Some (v b)"
    and key: "\<forall>b \<in> set bs. key b = k (v b)"
  shows "those (map rd (sort_key key bs)) = Some (sort_key k (map v bs))"
proof -
  from key have "sort_key key bs = sort_key (\<lambda>b. k (v b)) bs"
    by (rule sort_key_cong_set)
  moreover from rd have "those (map rd (sort_key (\<lambda>b. k (v b)) bs))
      = Some (map v (sort_key (\<lambda>b. k (v b)) bs))"
    by (intro those_map_Some) simp
  ultimately show ?thesis
    by (simp add: sort_key_map)
qed

lemma stable_suggestion_at: "stable_reader suggestion_at"
  unfolding stable_reader_def suggestion_at_def
  by (auto split: option.splits cell.splits dest: lookup_prefix)

lemma stable_chart_at: "stable_reader chart_at"
  unfolding stable_reader_def chart_at_def
  by (auto split: option.splits cell.splits dest: lookup_prefix)

lemma stable_score_at: "stable_reader score_at"
  unfolding stable_reader_def score_at_def
  by (auto split: option.splits cell.splits dest: lookup_prefix)

lemma objects_at_array:
  assumes "lookup h a = Some (Refs bs)" and "those (map (rd h) bs) = Some xs"
  shows "objects_at rd h a = Some xs"
  using assms by (simp add: objects_at_def refs_at_def)

text \<open>What a sorted array of new objects holds.\<close>

lemma sorted_array_read:
  fixes rd :: "store \<Rightarrow> nat \<Rightarrow> 'a option" and key :: "store \<Rightarrow> nat \<Rightarrow> 'k::linorder"
  assumes rel: "list_all2 (\<lambda>x b. rd h b = Some (g x)) xs bs"
    and st: "stable_reader rd"
    and key: "\<And>b y. rd (h @ [Refs bs]) b = Some y \<Longrightarrow> key (h @ [Refs bs]) b = k y"
  shows "objects_at rd (sort_at key (length h) (h @ [Refs bs])) (length h)
           = Some (sort_key k (map g xs))"
proof -
  let ?h2 = "h @ [Refs bs]"
  let ?sorted = "sort_key (key ?h2) bs"
  let ?h3 = "?h2[length h := Refs ?sorted]"
  let ?v = "\<lambda>b. the (rd h b)"
  from rel have v: "\<forall>b \<in> set bs. rd h b = Some (?v b)" and m: "map ?v bs = map g xs"
    using list_all2_readD [of "rd h" g xs bs] by simp_all
  have h3: "sort_at key (length h) ?h2 = ?h3"
    by (simp add: sort_at_def)
  have p: "prefix h ?h3"
    by (rule prefix_update) simp_all
  have rd3: "\<forall>b \<in> set bs. rd ?h3 b = Some (?v b)"
  proof
    fix b assume "b \<in> set bs"
    with v have "rd h b = Some (?v b)" by blast
    with st p show "rd ?h3 b = Some (?v b)" by (rule stable_readerD)
  qed
  have p2: "prefix h ?h2" by simp
  have rd2: "\<forall>b \<in> set bs. rd ?h2 b = Some (?v b)"
  proof
    fix b assume "b \<in> set bs"
    with v have "rd h b = Some (?v b)" by blast
    with st p2 show "rd ?h2 b = Some (?v b)" by (rule stable_readerD)
  qed
  then have k2: "\<forall>b \<in> set bs. key ?h2 b = k (?v b)"
    using key by blast
  from rd3 k2 have "those (map (rd ?h3) ?sorted) = Some (sort_key k (map ?v bs))"
    by (rule pipeline_sort)
  moreover have "lookup ?h3 (length h) = Some (Refs ?sorted)"
    by (simp add: lookup_update)
  ultimately have "objects_at rd ?h3 (length h) = Some (sort_key k (map ?v bs))"
    by (intro objects_at_array)
  then show ?thesis
    unfolding h3 m .
qed

lemma prevalenceResults_st_refines:
  assumes "prevalenceResults_st d st sel h = (a, h')"
  shows "objects_at row_at h' a = Some (prevalenceResults d st sel)"
proof -
  let ?f = "\<lambda>h i. alloc (RowObj (prevalence_of d st i)) h"
  let ?R = "\<lambda>h i b. row_at h b = Some (prevalence_of d st i)"
  obtain rows h1 where m: "map_st ?f sel h = (rows, h1)" by (cases "map_st ?f sel h")
  have "prefix h (snd (map_st ?f sel h)) \<and>
        list_all2 (?R (snd (map_st ?f sel h))) sel (fst (map_st ?f sel h)) \<and>
        True"
  proof (rule map_st_rel [where I = "\<lambda>h. True" and P = "\<lambda>x. True"])
    fix k k' :: store and x b
    assume "?R k x b" and "prefix k k'"
    with stable_row_at show "?R k' x b" by (auto dest: stable_readerD)
  qed simp_all
  with m have rel: "list_all2 (?R h1) sel rows"
    by simp
  from assms m have a: "a = length h1"
    and h': "h' = sort_at row_key (length h1) (h1 @ [Refs rows])"
    by (auto simp: prevalenceResults_st_def alloc_def)
  have "objects_at row_at (sort_at row_key (length h1) (h1 @ [Refs rows])) (length h1)
          = Some (sort_key (\<lambda>r. - percentage r) (map (prevalence_of d st) sel))"
    using rel stable_row_at
  proof (rule sorted_array_read)
    fix b y
    assume "row_at (h1 @ [Refs rows]) b = Some y"
    then show "row_key (h1 @ [Refs rows]) b = - percentage y"
      by (simp add: row_key_def)
  qed
  then show ?thesis
    unfolding a h' prevalenceResults_def .
qed

lemma those_list_all2:
  assumes "list_all2 (\<lambda>x b. rd b = Some (g x)) xs bs"
  shows "those (map rd bs) = Some (map g xs)"
  using assms by (induction rule: list_all2_induct) simp_all

lemma those_SomeD:
  assumes "those (map rd as) = Some xs"
  shows "list_all2 (\<lambda>x a. rd a = Some x) xs as"
  using assms
proof (induction as arbitrary: xs)
  case Nil
  then show ?case by simp
next
  case (Cons a as)
  then show ?case
    by (auto split: option.splits)
qed

lemma objects_atD:
  assumes "objects_at rd h a = Some xs"
  shows "\<exists>as. lookup h a = Some (Refs as) \<and> refs_of h a = as \<and>
              list_all2 (\<lambda>x b. rd h b = Some x) xs as"
proof -
  from assms obtain as where as: "refs_at h a = Some as" and t: "those (map (rd h) as) = Some xs"
    by (auto simp: objects_at_def split: Option.bind_splits)
  from as have "lookup h a = Some (Refs as)"
    by (auto simp: refs_at_def split: option.splits cell.splits)
  moreover from this have "refs_of h a = as"
    by (simp add: refs_of_def)
  moreover from t have "list_all2 (\<lambda>x b. rd h b = Some x) xs as"
    by (rule those_SomeD)
  ultimately show ?thesis by blast
qed

lemma list_all2_same_read:
  assumes "list_all2 (\<lambda>x b. rd b = Some x) xs as"
  shows "list_all2 (\<lambda>b c. b = c \<and> rd b = Some (the (rd b))) as as \<and>
         map (\<lambda>b. the (rd b)) as = xs"
  using assms by (induction rule: list_all2_induct) simp_all

lemma list_all2_stable:
  assumes "list_all2 (\<lambda>x b. rd h b = Some (g x)) xs bs"
    and "stable_reader rd" and "prefix h h'"
  shows "list_all2 (\<lambda>x b. rd h' b = Some (g x)) xs bs"
  using assms(1)
proof (rule list_all2_mono)
  fix x b
  assume "rd h b = Some (g x)"
  with assms(2,3) show "rd h' b = Some (g x)" by (rule stable_readerD)
qed

lemma severityChart_st_refines:
  assumes rows: "objects_at row_at h rows = Some rs"
    and run: "severityChart_st d rows h = (a, h')"
  shows "objects_at chart_at h' a = Some (map (chart_row_of d) rs)"
proof -
  from objects_atD [OF rows] obtain as where as: "refs_of h rows = as"
    and rel: "list_all2 (\<lambda>x b. row_at h b = Some x) rs as"
    by blast
  let ?v = "\<lambda>b. the (row_at h b)"
  from list_all2_same_read [OF rel]
  have v: "\<forall>b \<in> set as. row_at h b = Some (?v b)" and m: "map ?v as = rs"
    by (auto simp: list_all2_same)
  let ?I = "\<lambda>k. \<forall>x \<in> set as. row_at k x = Some (?v x)"
  let ?R = "\<lambda>k x b. chart_at k b = Some (chart_row_of d (?v x))"
  obtain cs h1 where ms: "map_st (chart_row_st d) as h = (cs, h1)"
    by (cases "map_st (chart_row_st d) as h")
  have "prefix h (snd (map_st (chart_row_st d) as h)) \<and>
        list_all2 (?R (snd (map_st (chart_row_st d) as h))) as (fst (map_st (chart_row_st d) as h)) \<and>
        ?I (snd (map_st (chart_row_st d) as h))"
  proof (rule map_st_rel [where I = ?I and P = "\<lambda>x. x \<in> set as"])
    fix k :: store and x
    assume "?I k" and "x \<in> set as"
    then have "chart_row_st d k x = alloc (ChartObj (chart_row_of d (?v x))) k"
      by (simp add: chart_row_st_def)
    then show "prefix k (snd (chart_row_st d k x)) \<and>
               ?R (snd (chart_row_st d k x)) x (fst (chart_row_st d k x))"
      by (simp add: chart_at_def)
  next
    fix k k' :: store
    assume "?I k" and "prefix k k'"
    with stable_row_at show "?I k'" by (auto dest: stable_readerD)
  next
    fix k k' :: store and x b
    assume "?R k x b" and "prefix k k'"
    with stable_chart_at show "?R k' x b" by (auto dest: stable_readerD)
  next
    from v show "?I h" .
  qed simp
  with ms have r1: "list_all2 (?R h1) as cs"
    by simp
  from run ms as have a: "a = length h1" and h': "h' = h1 @ [Refs cs]"
    by (auto simp: severityChart_st_def alloc_def)
  have "list_all2 (?R (h1 @ [Refs cs])) as cs"
    using r1 stable_chart_at by (rule list_all2_stable) simp
  then have "those (map (chart_at (h1 @ [Refs cs])) cs) = Some (map (\<lambda>x. chart_row_of d (?v x)) as)"
    by (rule those_list_all2)
  moreover have "map (\<lambda>x. chart_row_of d (?v x)) as = map (chart_row_of d) rs"
    unfolding m [symmetric] by simp
  ultimately show ?thesis
    unfolding a h' by (intro objects_at_array) simp_all
qed

lemma stable_spec_score_at: "stable_reader spec_score_at"
  unfolding stable_reader_def
proof (intro allI impI)
  fix h h' :: store and a x
  assume p: "prefix h h'" and r: "spec_score_at h a = Some x"
  from r obtain i ty de wh ic ia ma na sc ids m names
    where c: "lookup h a = Some (SpecScoreObj i ty de wh ic ia ma na sc)"
      and n: "numbers_at h ia = Some ids" "numbers_at h ma = Some m"
        "strings_at h na = Some names"
      and x: "x = specialist.extend
                    \<lparr>specialist_id = i, specialist_type = ty, description = de,
                     what_to_expect = wh, icon = ic, symptom_ids = ids\<rparr>
                    (spec_score.fields m names sc)"
    by (auto simp: spec_score_at_def split: option.splits cell.splits)
  from p c have "lookup h' a = Some (SpecScoreObj i ty de wh ic ia ma na sc)"
    by (rule lookup_prefix)
  moreover from stable_numbers_at p n(1) have "numbers_at h' ia = Some ids"
    by (rule stable_readerD)
  moreover from stable_numbers_at p n(2) have "numbers_at h' ma = Some m"
    by (rule stable_readerD)
  moreover from stable_strings_at p n(3) have "strings_at h' na = Some names"
    by (rule stable_readerD)
  ultimately show "spec_score_at h' a = Some x"
    by (simp add: spec_score_at_def x)
qed

lemma spec_score_at_value:
  assumes "spec_score_at h b = Some x"
  shows "score_value h b = score x"
  using assms
  by (auto simp: spec_score_at_def score_value_def specialist.defs spec_score.defs
      split: option.splits cell.splits)

lemma score_of_st_refines:
  assumes sp: "specialist_at h x = Some sp" and s: "lookup h s = Some (SetObj sel)"
  shows "prefix h (snd (score_of_st d s h x)) \<and>
         spec_score_at (snd (score_of_st d s h x)) (fst (score_of_st d s h x))
           = Some (score_of d (set sel) sp)"
proof -
  from sp obtain i ty de wh ic ia ids
    where c: "lookup h x = Some (SpecObj i ty de wh ic ia)" and n: "numbers_at h ia = Some ids"
      and v: "sp = \<lparr>specialist_id = i, specialist_type = ty, description = de,
                   what_to_expect = wh, icon = ic, symptom_ids = ids\<rparr>"
    by (auto simp: specialist_at_def split: option.splits cell.splits)
  from s have hs: "has h s = (\<lambda>i. i \<in> set sel)"
    by (auto simp: has_def)
  let ?m = "filter (\<lambda>i. i \<in> set sel) ids"
  let ?names = "map (\<lambda>i. str_or (Option.bind (prevalence d i) prevalence_entry.symptom_name) []) ?m"
  let ?obj = "SpecScoreObj i ty de wh ic ia (length h) (Suc (length h)) (length ?m)"
  let ?h' = "h @ [Numbers ?m, Strings ?names, ?obj]"
  from c n hs have r: "score_of_st d s h x = (Suc (Suc (length h)), ?h')"
    by (simp add: score_of_st_def alloc_def Let_def)
  have p: "prefix h ?h'"
    by (simp add: prefix_def)
  from stable_numbers_at p n have n': "numbers_at ?h' ia = Some ids"
    by (rule stable_readerD)
  have "lookup ?h' (length h) = Some (Numbers ?m)"
    by (simp add: lookup_def)
  then have m': "numbers_at ?h' (length h) = Some ?m"
    by (simp add: numbers_at_def)
  have "lookup ?h' (Suc (length h)) = Some (Strings ?names)"
    by (simp add: lookup_def nth_append)
  then have s': "strings_at ?h' (Suc (length h)) = Some ?names"
    by (simp add: strings_at_def)
  have o': "lookup ?h' (Suc (Suc (length h))) = Some ?obj"
    by (simp add: lookup_def nth_append)
  have "spec_score_at ?h' (Suc (Suc (length h))) = Some (score_of d (set sel) sp)"
    unfolding spec_score_at_def o' by (simp add: n' m' s' score_of_def v Let_def)
  with p show ?thesis
    unfolding r by simp
qed

lemma specScores_st_refines:
  assumes specs: "objects_at specialist_at h specs = Some (specialists d)"
    and s: "lookup h s = Some (SetObj sel)"
    and run: "specScores_st d s specs h = (a, h')"
  shows "objects_at spec_score_at h' a = Some (specScores d sel)"
proof -
  from objects_atD [OF specs] obtain as where as: "refs_of h specs = as"
    and rel: "list_all2 (\<lambda>x b. specialist_at h b = Some x) (specialists d) as"
    by blast
  let ?v = "\<lambda>b. the (specialist_at h b)"
  from list_all2_same_read [OF rel]
  have v: "\<forall>b \<in> set as. specialist_at h b = Some (?v b)" and mv: "map ?v as = specialists d"
    by (auto simp: list_all2_same)
  let ?I = "\<lambda>k. prefix h k"
  let ?R = "\<lambda>k x b. spec_score_at k b = Some (score_of d (set sel) (?v x))"
  obtain objs h1 where ms: "map_st (score_of_st d s) as h = (objs, h1)"
    by (cases "map_st (score_of_st d s) as h")
  have "prefix h (snd (map_st (score_of_st d s) as h)) \<and>
        list_all2 (?R (snd (map_st (score_of_st d s) as h))) as (fst (map_st (score_of_st d s) as h)) \<and>
        ?I (snd (map_st (score_of_st d s) as h))"
  proof (rule map_st_rel [where I = ?I and P = "\<lambda>x. x \<in> set as"])
    fix k :: store and x
    assume k: "prefix h k" and "x \<in> set as"
    with v have "specialist_at h x = Some (?v x)" by blast
    with stable_specialist_at k have "specialist_at k x = Some (?v x)"
      by (rule stable_readerD)
    moreover from k s have "lookup k s = Some (SetObj sel)" by (rule lookup_prefix)
    ultimately show "prefix k (snd (score_of_st d s k x)) \<and>
               ?R (snd (score_of_st d s k x)) x (fst (score_of_st d s k x))"
      by (rule score_of_st_refines)
  next
    fix k k' :: store
    assume "prefix h k" and "prefix k k'"
    then show "prefix h k'" by (rule prefix_order.trans)
  next
    fix k k' :: store and x b
    assume "?R k x b" and "prefix k k'"
    with stable_spec_score_at show "?R k' x b" by (auto dest: stable_readerD)
  qed simp_all
  with ms have r1: "list_all2 (?R h1) as objs"
    by simp
  let ?h2 = "h1 @ [Refs objs]"
  let ?pos = "filter (\<lambda>a. 0 < score_value ?h2 a) objs"
  let ?h3 = "?h2 @ [Refs ?pos]"
  let ?h4 = "sort_at spec_score_key (length ?h2) ?h3"
  let ?sorted = "sort_key (spec_score_key ?h3) ?pos"
  let ?out = "take 3 ?sorted"
  have r2: "refs_of ?h2 (length h1) = objs"
    by (simp add: refs_of_def)
  have l3: "lookup ?h3 (length ?h2) = Some (Refs ?pos)"
    using lookup_append_new [of ?h2 "Refs ?pos"] by simp
  then have h4: "?h4 = ?h3[length ?h2 := Refs ?sorted]"
    by (simp add: sort_at_def)
  have l4: "lookup ?h4 (length ?h2) = Some (Refs ?sorted)"
    unfolding h4 by (simp add: lookup_update)
  then have r4: "refs_of ?h4 (length ?h2) = ?sorted"
    by (simp add: refs_of_def)
  from run ms as have a: "a = length ?h4" and h': "h' = ?h4 @ [Refs ?out]"
    using r2 r4 by (auto simp: specScores_st_def alloc_def Let_def)
  let ?w = "\<lambda>b. the (spec_score_at h1 b)"
  from r1 have w: "\<forall>b \<in> set objs. spec_score_at h1 b = Some (?w b)"
    and mw: "map ?w objs = map (\<lambda>x. score_of d (set sel) (?v x)) as"
    using list_all2_readD [of "spec_score_at h1" "\<lambda>x. score_of d (set sel) (?v x)" as objs]
    by simp_all
  have mw': "map ?w objs = map (score_of d (set sel)) (specialists d)"
    unfolding mw mv [symmetric] by (simp add: comp_def)
  have p12: "prefix h1 ?h2" by simp
  have p13: "prefix h1 ?h3" by (simp add: prefix_def)
  have "prefix h1 ?h4" using p13 by (rule sort_at_prefix) simp
  then have p1': "prefix h1 h'" unfolding h' by (rule prefix_prefix)
  have at: "spec_score_at k b = Some (?w b)" if "b \<in> set objs" and "prefix h1 k" for k b
  proof -
    from w that(1) have "spec_score_at h1 b = Some (?w b)" by blast
    with stable_spec_score_at that(2) show ?thesis by (rule stable_readerD)
  qed
  have val: "score_value k b = score (?w b)" if "b \<in> set objs" and "prefix h1 k" for k b
    using at [OF that] by (rule spec_score_at_value)
  have pos: "?pos = filter (\<lambda>b. 0 < score (?w b)) objs"
    by (rule filter_cong) (simp_all add: val p12)
  have "sort_key (spec_score_key ?h3) ?pos = sort_key (\<lambda>b. - int (score (?w b))) ?pos"
    by (rule sort_key_cong_set) (simp add: spec_score_key_def val p13)
  then have "map ?w ?sorted = map ?w (sort_key (\<lambda>b. - int (score (?w b))) ?pos)"
    by (rule arg_cong)
  also have "\<dots> = sort_key (\<lambda>s. - int (score s)) (map ?w ?pos)"
    by (rule sort_key_map)
  also have "map ?w ?pos = filter (\<lambda>s. 0 < score s) (map ?w objs)"
    unfolding pos by (simp add: filter_map comp_def)
  finally have e: "map ?w ?sorted
      = sort_key (\<lambda>s. - int (score s)) (filter (\<lambda>s. 0 < score s) (map ?w objs))" .
  have "map ?w ?out = take 3 (map ?w ?sorted)"
    by (simp add: take_map)
  then have "map ?w ?out = specScores d sel"
    unfolding e specScores_def mw' .
  moreover have "those (map (spec_score_at h') ?out) = Some (map ?w ?out)"
  proof (rule those_map_Some, rule ballI)
    fix b assume "b \<in> set ?out"
    then have "b \<in> set ?sorted" by (rule in_set_takeD)
    then have "b \<in> set objs" by simp
    then show "spec_score_at h' b = Some (?w b)" using p1' by (rule at)
  qed
  moreover have "lookup h' a = Some (Refs ?out)"
    unfolding h' a by (rule lookup_append_new)
  ultimately show ?thesis
    by (simp add: objects_at_array)
qed

lemma accumulate_absent:
  "k \<notin> fst ` set ps \<Longrightarrow> accumulate k pct ps = ps @ [(k, \<lparr>total = to_double (0 + pct), count = 0 + 1\<rparr>)]"
  by (induction ps) auto

lemma list_all2_memD: "list_all2 R xs ys \<Longrightarrow> x \<in> set xs \<Longrightarrow> \<exists>y. R x y"
  by (induction rule: list_all2_induct) auto

lemma list_all2_keys:
  "list_all2 (\<lambda>kv p. fst kv = fst p \<and> Q kv p) kvs ps \<Longrightarrow> map fst kvs = map fst ps"
proof (induction kvs arbitrary: ps)
  case Nil
  then show ?case by simp
next
  case (Cons kv kvs)
  then show ?case by (cases ps) auto
qed

lemma scores_rel_keys:
  assumes "scores_rel h kvs ps"
  shows "map fst kvs = map fst ps"
proof -
  from assms
  have "list_all2 (\<lambda>kv p. fst kv = fst p \<and> score_at h (snd kv) = Some (snd p)) kvs ps"
    by (simp add: scores_rel_def)
  then show ?thesis by (rule list_all2_keys)
qed

lemma score_at_update:
  "score_at (h[a := c]) b =
     (if b = a \<and> a < length h then (case c of ScoreObj v \<Rightarrow> Some v | _ \<Rightarrow> None)
      else score_at h b)"
  by (auto simp: score_at_def lookup_update split: cell.splits)

lemma score_at_append:
  assumes "score_at h b = Some v"
  shows "score_at (h @ cs) b = Some v"
proof -
  have "prefix h (h @ cs)" by simp
  with stable_score_at show ?thesis using assms by (rule stable_readerD)
qed

lemma add_to_present:
  assumes "score_at h a = Some v"
  shows "add_to a pct h = h[a := ScoreObj (bumped pct v)]"
  using assms by (auto simp: add_to_def score_at_def bumped_def split: option.splits cell.splits)

lemma list_all2_bump:
  assumes "list_all2 (\<lambda>kv p. fst kv = fst p \<and> score_at h (snd kv) = Some (snd p)) kvs ps"
    and "distinct (map snd kvs)" and "map_of kvs k = Some a" and "score_at h a = Some v"
  shows "list_all2 (\<lambda>kv p. fst kv = fst p \<and>
                       score_at (h[a := ScoreObj (bumped pct v)]) (snd kv) = Some (snd p))
           kvs (accumulate k pct ps)"
  using assms
proof (induction kvs ps rule: list_all2_induct)
  case Nil
  then show ?case by simp
next
  case (Cons kv kvs p ps)
  let ?h' = "h[a := ScoreObj (bumped pct v)]"
  from Cons.prems(3) have lt: "a < length h" by (rule reader_lt)
  obtain k' b where kv: "kv = (k', b)" by (cases kv)
  obtain k'' w where p: "p = (k'', w)" by (cases p)
  from Cons.hyps(1) kv p have keq: "k'' = k'" and bw: "score_at h b = Some w"
    by simp_all
  from Cons.prems(1) kv have nb: "b \<notin> snd ` set kvs" and dist: "distinct (map snd kvs)"
    by auto
  show ?case
  proof (cases "k = k'")
    case True
    with Cons.prems(2) kv have ab: "a = b" by simp
    with bw Cons.prems(3) have vw: "v = w" by simp
    have rest: "list_all2 (\<lambda>kv p. fst kv = fst p \<and> score_at ?h' (snd kv) = Some (snd p)) kvs ps"
      using Cons.hyps(2)
    proof (rule list.rel_mono_strong)
      fix x y
      assume "x \<in> set kvs" and xy: "fst x = fst y \<and> score_at h (snd x) = Some (snd y)"
      with nb ab have "snd x \<noteq> a" by auto
      with xy show "fst x = fst y \<and> score_at ?h' (snd x) = Some (snd y)"
        by (simp add: score_at_update)
    qed
    from True keq p have "accumulate k pct (p # ps) = (k', bumped pct w) # ps"
      by (simp add: bumped_def)
    moreover have "score_at ?h' b = Some (bumped pct w)"
      using lt ab vw by (simp add: score_at_update)
    ultimately show ?thesis
      using rest kv by simp
  next
    case False
    with Cons.prems(2) kv have m: "map_of kvs k = Some a" by simp
    then have "(k, a) \<in> set kvs" by (rule map_of_SomeD)
    then have "a \<in> snd ` set kvs" by force
    with nb have "b \<noteq> a" by auto
    with bw have "score_at ?h' b = Some w"
      by (simp add: score_at_update)
    moreover from False keq p have "accumulate k pct (p # ps) = p # accumulate k pct ps"
      by simp
    moreover have "list_all2 (\<lambda>kv p. fst kv = fst p \<and> score_at ?h' (snd kv) = Some (snd p))
        kvs (accumulate k pct ps)"
      using dist m Cons.prems(3) by (rule Cons.IH)
    ultimately show ?thesis
      using kv p keq by simp
  qed
qed

lemma accumulate_st_rel:
  assumes "acc_rel s sel dict h ps"
  shows "acc_rel s sel dict (accumulate_st dict k pct h) (accumulate k pct ps)"
proof -
  from assms obtain kvs where s: "lookup h s = Some (SetObj sel)"
    and d: "lookup h dict = Some (Props kvs)" and rel: "scores_rel h kvs ps"
    by (auto simp: acc_rel_def)
  from rel have l2: "list_all2 (\<lambda>kv p. fst kv = fst p \<and> score_at h (snd kv) = Some (snd p)) kvs ps"
    and dist: "distinct (map snd kvs)"
    by (simp_all add: scores_rel_def)
  from rel have keys: "map fst kvs = map fst ps" by (rule scores_rel_keys)
  from d have dlt: "dict < length h" by (simp add: lookup_Some_iff)
  from s have slt: "s < length h" by (simp add: lookup_Some_iff)
  from s d have sd: "s \<noteq> dict" by auto
  show ?thesis
  proof (cases "map_of kvs k")
    case (Some a)
    then have mem: "(k, a) \<in> set kvs" by (rule map_of_SomeD)
    with l2 have "\<exists>p. fst (k, a) = fst p \<and> score_at h (snd (k, a)) = Some (snd p)"
      by (rule list_all2_memD)
    then obtain v where v: "score_at h a = Some v" by auto
    let ?h' = "h[a := ScoreObj (bumped pct v)]"
    from v s d have as: "a \<noteq> s" and ad: "a \<noteq> dict"
      by (auto simp: score_at_def)
    from d Some v have step: "accumulate_st dict k pct h = ?h'"
      by (simp add: accumulate_st_def add_to_present)
    from l2 dist Some v
    have "list_all2 (\<lambda>kv p. fst kv = fst p \<and> score_at ?h' (snd kv) = Some (snd p))
            kvs (accumulate k pct ps)"
      by (rule list_all2_bump)
    with dist have "scores_rel ?h' kvs (accumulate k pct ps)"
      by (simp add: scores_rel_def)
    moreover from s as have "lookup ?h' s = Some (SetObj sel)"
      by (simp add: lookup_update)
    moreover from d ad have "lookup ?h' dict = Some (Props kvs)"
      by (simp add: lookup_update)
    ultimately show ?thesis
      unfolding step acc_rel_def by blast
  next
    case None
    let ?n = "length h"
    let ?new = "\<lparr>total = 0, count = 0\<rparr>"
    let ?kvs' = "kvs @ [(k, ?n)]"
    let ?h2 = "(h @ [ScoreObj ?new])[dict := Props ?kvs']"
    let ?h3 = "?h2[?n := ScoreObj (bumped pct ?new)]"
    have "score_at ?h2 ?n = Some ?new"
      using dlt by (simp add: score_at_def lookup_def nth_append)
    then have "add_to ?n pct ?h2 = ?h3"
      by (rule add_to_present)
    with None d have step: "accumulate_st dict k pct h = ?h3"
      by (simp add: accumulate_st_def alloc_def)
    from None have "k \<notin> fst ` set kvs"
      by (simp add: map_of_eq_None_iff)
    with keys have "k \<notin> fst ` set ps"
      by (metis set_map)
    then have pure: "accumulate k pct ps = ps @ [(k, bumped pct ?new)]"
      by (simp add: accumulate_absent bumped_def)
    have old: "score_at ?h3 b = Some w" if "score_at h b = Some w" for b w
    proof -
      from that have blt: "b < length h" by (rule reader_lt)
      from that d have "b \<noteq> dict" by (auto simp: score_at_def)
      with blt that show ?thesis
        by (simp add: score_at_update score_at_append)
    qed
    have "list_all2 (\<lambda>kv p. fst kv = fst p \<and> score_at ?h3 (snd kv) = Some (snd p)) kvs ps"
      using l2 by (rule list_all2_mono) (auto intro: old)
    moreover have "score_at ?h3 ?n = Some (bumped pct ?new)"
      by (simp add: score_at_update)
    ultimately have "list_all2 (\<lambda>kv p. fst kv = fst p \<and> score_at ?h3 (snd kv) = Some (snd p))
        ?kvs' (ps @ [(k, bumped pct ?new)])"
      by (simp add: list_all2_appendI)
    moreover have "?n \<notin> snd ` set kvs"
    proof
      assume "?n \<in> snd ` set kvs"
      then obtain kv where kv: "kv \<in> set kvs" and n: "snd kv = ?n" by auto
      from l2 kv have "\<exists>p. fst kv = fst p \<and> score_at h (snd kv) = Some (snd p)"
        by (rule list_all2_memD)
      with n obtain w where "score_at h ?n = Some w" by auto
      then have "?n < length h" by (rule reader_lt)
      then show False by simp
    qed
    with dist have "distinct (map snd ?kvs')" by simp
    ultimately have "scores_rel ?h3 ?kvs' (accumulate k pct ps)"
      unfolding pure by (simp add: scores_rel_def)
    moreover have "lookup ?h3 dict = Some (Props ?kvs')"
      using dlt by (simp add: lookup_update)
    moreover have "lookup ?h3 s = Some (SetObj sel)"
      using s slt sd by (simp add: lookup_update lookup_append_old)
    ultimately show ?thesis
      unfolding step acc_rel_def by blast
  qed
qed

lemma has_acc_rel: "acc_rel s sel dict h ps \<Longrightarrow> has h s x \<longleftrightarrow> x \<in> set sel"
  by (simp add: acc_rel_def has_def)

lemma guarded_accumulate_rel:
  assumes "acc_rel s sel dict h ps"
  shows "acc_rel s sel dict (if c then accumulate_st dict k pct h else h)
           (if c then accumulate k pct ps else ps)"
  using assms by (cases c) (simp_all add: accumulate_st_rel)

lemma cooc_step_st_rel:
  assumes "acc_rel s sel dict h ps"
  shows "acc_rel s sel dict (cooc_step_st s dict h row) (cooc_step (set sel) ps row)"
proof -
  let ?c1 = "symptom_id_a row \<in> set sel \<and> symptom_id_b row \<notin> set sel"
  let ?c2 = "symptom_id_b row \<in> set sel \<and> symptom_id_a row \<notin> set sel"
  let ?h1 = "if ?c1 then accumulate_st dict (symptom_id_b row) (co_occurrence_pct row) h else h"
  let ?p1 = "if ?c1 then accumulate (symptom_id_b row) (co_occurrence_pct row) ps else ps"
  let ?h2 = "if ?c2 then accumulate_st dict (symptom_id_a row) (co_occurrence_pct row) ?h1 else ?h1"
  let ?p2 = "if ?c2 then accumulate (symptom_id_a row) (co_occurrence_pct row) ?p1 else ?p1"
  from assms have r1: "acc_rel s sel dict ?h1 ?p1"
    by (rule guarded_accumulate_rel)
  then have r2: "acc_rel s sel dict ?h2 ?p2"
    by (rule guarded_accumulate_rel)
  have "cooc_step_st s dict h row = ?h2"
    unfolding cooc_step_st_def Let_def has_acc_rel [OF assms] has_acc_rel [OF r1] ..
  moreover have "cooc_step (set sel) ps row = ?p2"
    unfolding cooc_step_def Let_def ..
  ultimately show ?thesis
    using r2 by (simp only:)
qed

lemma foldl_cooc_step_st_rel:
  "acc_rel s sel dict h ps \<Longrightarrow>
   acc_rel s sel dict (foldl (cooc_step_st s dict) h rows) (foldl (cooc_step (set sel)) ps rows)"
  by (induction rows arbitrary: h ps) (simp_all add: cooc_step_st_rel)

lemma stable_pair_at: "stable_reader pair_at"
  unfolding stable_reader_def
proof (intro allI impI)
  fix h h' :: store and a x
  assume p: "prefix h h'" and r: "pair_at h a = Some x"
  from r obtain k va v where c: "lookup h a = Some (PairObj k va)"
    and v: "score_at h va = Some v" and x: "x = (k, v)"
    by (auto simp: pair_at_def split: option.splits cell.splits)
  from p c have "lookup h' a = Some (PairObj k va)" by (rule lookup_prefix)
  moreover from stable_score_at p v have "score_at h' va = Some v" by (rule stable_readerD)
  ultimately show "pair_at h' a = Some x"
    by (simp add: pair_at_def x)
qed

lemma object_entries_map:
  "object_entries (map (\<lambda>kv. (fst kv, w (snd kv))) kvs)
     = map (\<lambda>kv. (fst kv, w (snd kv))) (object_entries kvs)"
proof -
  let ?v = "\<lambda>kv. (fst kv, w (snd kv))"
  have "sort_key fst (map ?v (filter (\<lambda>kv. is_array_index (fst kv)) kvs))
          = map ?v (sort_key (\<lambda>kv. fst (?v kv)) (filter (\<lambda>kv. is_array_index (fst kv)) kvs))"
    by (rule sort_key_map [symmetric])
  then show ?thesis
    by (simp add: object_entries_def filter_map comp_def)
qed

lemma scores_rel_map:
  assumes "scores_rel h kvs ps"
  shows "ps = map (\<lambda>kv. (fst kv, the (score_at h (snd kv)))) kvs \<and>
         (\<forall>kv \<in> set kvs. score_at h (snd kv) = Some (the (score_at h (snd kv))))"
proof -
  from assms
  have "list_all2 (\<lambda>kv p. fst kv = fst p \<and> score_at h (snd kv) = Some (snd p)) kvs ps"
    by (simp add: scores_rel_def)
  then show ?thesis
    by (induction rule: list_all2_induct) auto
qed

lemma slice_read:
  assumes "objects_at rd h arr = Some xs" and "stable_reader rd"
  shows "objects_at rd (h @ [Refs (take n (refs_of h arr))]) (length h) = Some (take n xs)"
proof -
  from objects_atD [OF assms(1)] obtain as where as: "refs_of h arr = as"
    and rel: "list_all2 (\<lambda>x b. rd h b = Some x) xs as"
    by blast
  let ?h' = "h @ [Refs (take n as)]"
  from rel have "list_all2 (\<lambda>x b. rd h b = Some x) (take n xs) (take n as)"
    by (rule list_all2_takeI)
  then have "list_all2 (\<lambda>x b. rd ?h' b = Some x) (take n xs) (take n as)"
    using assms(2) by (rule list_all2_stable) simp
  then have "those (map (rd ?h') (take n as)) = Some (map (\<lambda>x. x) (take n xs))"
    by (rule those_list_all2)
  then show ?thesis
    unfolding as by (intro objects_at_array) simp_all
qed

lemma cooccurringSymptoms_st_refines:
  assumes s: "lookup h s = Some (SetObj sel)"
    and run: "cooccurringSymptoms_st d s h = (a, h')"
  shows "objects_at suggestion_at h' a = Some (cooccurringSymptoms d sel)"
proof -
  let ?n = "length h"
  let ?h1 = "h @ [Props []]"
  let ?h2 = "foldl (cooc_step_st s ?n) ?h1 (cooccurrences d)"
  let ?ps = "coocScores d sel"
  from s have slt: "s < ?n" by (simp add: lookup_Some_iff)
  with s have "lookup ?h1 s = Some (SetObj sel)"
    by (simp add: lookup_append_old)
  then have "acc_rel s sel ?n ?h1 []"
    by (simp add: acc_rel_def scores_rel_def)
  then have "acc_rel s sel ?n ?h2 (foldl (cooc_step (set sel)) [] (cooccurrences d))"
    by (rule foldl_cooc_step_st_rel)
  then obtain kvs where d2: "lookup ?h2 ?n = Some (Props kvs)" and rel: "scores_rel ?h2 kvs ?ps"
    by (auto simp: acc_rel_def coocScores_def)
  let ?w = "\<lambda>a. the (score_at ?h2 a)"
  let ?g = "\<lambda>kv. (fst kv, ?w (snd kv))"
  from scores_rel_map [OF rel] have ps: "?ps = map ?g kvs"
    and sc: "\<forall>kv \<in> set kvs. score_at ?h2 (snd kv) = Some (?w (snd kv))"
    by simp_all
  from d2 have pr: "props_at ?h2 ?n = Some kvs"
    by (simp add: props_at_def)
  let ?f = "\<lambda>h kv. alloc (PairObj (fst kv) (snd kv)) h"
  obtain pairs h3' where mp: "map_st ?f (object_entries kvs) ?h2 = (pairs, h3')"
    by (cases "map_st ?f (object_entries kvs) ?h2")
  let ?h3 = "h3' @ [Refs pairs]"
  from pr mp have e: "entries_st ?n ?h2 = (length h3', ?h3)"
    by (simp add: entries_st_def alloc_def)
  let ?R = "\<lambda>k kv b. pair_at k b = Some (?g kv)"
  have "prefix ?h2 (snd (map_st ?f (object_entries kvs) ?h2)) \<and>
        list_all2 (?R (snd (map_st ?f (object_entries kvs) ?h2))) (object_entries kvs)
          (fst (map_st ?f (object_entries kvs) ?h2)) \<and>
        prefix ?h2 (snd (map_st ?f (object_entries kvs) ?h2))"
  proof (rule map_st_rel [where I = "\<lambda>k. prefix ?h2 k" and P = "\<lambda>kv. kv \<in> set kvs"])
    fix k :: store and kv
    assume k: "prefix ?h2 k" and "kv \<in> set kvs"
    with sc have "score_at ?h2 (snd kv) = Some (?w (snd kv))" by blast
    with stable_score_at k have "score_at k (snd kv) = Some (?w (snd kv))"
      by (rule stable_readerD)
    then have "score_at (k @ [PairObj (fst kv) (snd kv)]) (snd kv) = Some (?w (snd kv))"
      by (rule score_at_append)
    then show "prefix k (snd (?f k kv)) \<and> ?R (snd (?f k kv)) kv (fst (?f k kv))"
      by (simp add: pair_at_def)
  next
    fix k k' :: store
    assume "prefix ?h2 k" and "prefix k k'"
    then show "prefix ?h2 k'" by (rule prefix_order.trans)
  next
    fix k k' :: store and kv b
    assume "?R k kv b" and "prefix k k'"
    with stable_pair_at show "?R k' kv b" by (auto dest: stable_readerD)
  qed simp_all
  with mp have r3: "list_all2 (?R h3') (object_entries kvs) pairs"
    by simp
  then have r3': "list_all2 (\<lambda>p b. pair_at h3' b = Some p) (map ?g (object_entries kvs)) pairs"
    by (simp add: list_all2_map1)
  let ?u = "\<lambda>b. the (pair_at h3' b)"
  have oe: "object_entries ?ps = map ?g (object_entries kvs)"
    unfolding ps by (rule object_entries_map)
  from list_all2_same_read [OF r3']
  have u: "\<forall>b \<in> set pairs. pair_at h3' b = Some (?u b)"
    and mu: "map ?u pairs = object_entries ?ps"
    unfolding oe by (auto simp: list_all2_same)
  have at: "pair_at k b = Some (?u b)" if "b \<in> set pairs" and "prefix h3' k" for k b
  proof -
    from u that(1) have "pair_at h3' b = Some (?u b)" by blast
    with stable_pair_at that(2) show ?thesis by (rule stable_readerD)
  qed
  have r3h: "refs_of ?h3 (length h3') = pairs"
    by (simp add: refs_of_def)
  let ?kept = "filter (well_supported ?h3) pairs"
  have p33: "prefix h3' ?h3" by simp
  have kept: "?kept = filter (\<lambda>b. 2 \<le> count (snd (?u b))) pairs"
  proof (rule filter_cong)
    fix b
    assume "b \<in> set pairs"
    then have "pair_at ?h3 b = Some (?u b)" using p33 by (rule at)
    then show "well_supported ?h3 b = (2 \<le> count (snd (?u b)))"
      by (simp only: well_supported_def option.case)
  qed simp
  have mk: "map ?u ?kept = supported d sel"
    unfolding kept supported_def mu [symmetric] by (simp add: filter_map comp_def)
  let ?h4 = "?h3 @ [Refs ?kept]"
  have r4h: "refs_of ?h4 (length ?h3) = ?kept"
    using lookup_append_new [of ?h3 "Refs ?kept"] by (simp add: refs_of_def)
  obtain rows h5 where ms: "map_st (suggestion_st d) ?kept ?h4 = (rows, h5)"
    by (cases "map_st (suggestion_st d) ?kept ?h4")
  let ?S = "\<lambda>k x b. suggestion_at k b = Some (suggestion_of d (?u x))"
  have "prefix ?h4 (snd (map_st (suggestion_st d) ?kept ?h4)) \<and>
        list_all2 (?S (snd (map_st (suggestion_st d) ?kept ?h4))) ?kept
          (fst (map_st (suggestion_st d) ?kept ?h4)) \<and>
        prefix h3' (snd (map_st (suggestion_st d) ?kept ?h4))"
  proof (rule map_st_rel [where I = "\<lambda>k. prefix h3' k" and P = "\<lambda>b. b \<in> set pairs"])
    fix k :: store and x
    assume "prefix h3' k" and "x \<in> set pairs"
    then have "pair_at k x = Some (?u x)" by (intro at)
    then have "suggestion_st d k x = alloc (SuggestionObj (suggestion_of d (?u x))) k"
      by (simp add: suggestion_st_def)
    then show "prefix k (snd (suggestion_st d k x)) \<and>
               ?S (snd (suggestion_st d k x)) x (fst (suggestion_st d k x))"
      by (simp add: suggestion_at_def)
  next
    fix k k' :: store
    assume "prefix h3' k" and "prefix k k'"
    then show "prefix h3' k'" by (rule prefix_order.trans)
  next
    fix k k' :: store and x b
    assume "?S k x b" and "prefix k k'"
    with stable_suggestion_at show "?S k' x b" by (auto dest: stable_readerD)
  next
    show "prefix h3' ?h4" by (simp add: prefix_def)
  qed simp
  with ms have r5: "list_all2 (?S h5) ?kept rows"
    by simp
  let ?h6 = "h5 @ [Refs rows]"
  let ?h7 = "sort_at suggestion_key (length h5) ?h6"
  have sorted: "objects_at suggestion_at ?h7 (length h5)
      = Some (sort_key (\<lambda>r. - avg_pct r) (map (\<lambda>x. suggestion_of d (?u x)) ?kept))"
    using r5 stable_suggestion_at
  proof (rule sorted_array_read)
    fix b y
    assume "suggestion_at ?h6 b = Some y"
    then show "suggestion_key ?h6 b = - avg_pct y"
      by (simp add: suggestion_key_def)
  qed
  have "map (\<lambda>x. suggestion_of d (?u x)) ?kept = map (suggestion_of d) (supported d sel)"
    unfolding mk [symmetric] by (simp add: comp_def)
  with sorted have sorted': "objects_at suggestion_at ?h7 (length h5)
      = Some (sort_key (\<lambda>r. - avg_pct r) (map (suggestion_of d) (supported d sel)))"
    by simp
  from run e ms have a: "a = length ?h7"
    and h': "h' = ?h7 @ [Refs (take 5 (refs_of ?h7 (length h5)))]"
    using r3h r4h by (auto simp: cooccurringSymptoms_st_def alloc_def Let_def)
  from sorted' stable_suggestion_at show ?thesis
    unfolding a h' cooccurringSymptoms_def by (rule slice_read)
qed

lemma load_dataset_specialists:
  assumes "load_dataset h refs = Some d"
  shows "objects_at specialist_at h (specialists_ref refs) = Some (specialists d)"
  using assms by (auto simp: load_dataset_def split: Option.bind_splits)

lemma load_unknown_store: "load_dataset unknown_store ex_refs = Some ex_dataset"
  by (simp add: load_dataset_def table_at_def objects_at_def props_at_def refs_at_def
      entry_at_def severity_at_def cooc_at_def specialist_at_def numbers_at_def lookup_def
      unknown_store_def ex_store_def ex_refs_def ex_dataset_def)

section \<open>The store computes what the functions compute\<close>

text \<open>
  The computation on the store and the functions of the first section agree: on a store whose
  arguments hold a dataset and a selection, the component returns, and the four arrays it
  returns hold the rows that the functions compute, in the same order.
\<close>

theorem Results_st_refines:
  assumes d: "load_dataset h refs = Some d"
    and sel: "numbers_at h (selectedSymptoms_ref refs) = Some sel"
  shows "\<exists>out h'. Results_st refs st h = Some (out, h') \<and>
           objects_at row_at h' (prevalenceResults_ref out) = Some (prevalenceResults d st sel) \<and>
           objects_at suggestion_at h' (cooccurringSymptoms_ref out)
             = Some (cooccurringSymptoms d sel) \<and>
           objects_at spec_score_at h' (specScores_ref out) = Some (specScores d sel) \<and>
           objects_at chart_at h' (severityChart_ref out) = Some (severityChart d st sel)"
proof -
  obtain pr h1 where s1: "prevalenceResults_st d st sel h = (pr, h1)"
    by (cases "prevalenceResults_st d st sel h")
  let ?s = "length h1"
  let ?h2 = "h1 @ [SetObj sel]"
  obtain co h3 where s3: "cooccurringSymptoms_st d ?s ?h2 = (co, h3)"
    by (cases "cooccurringSymptoms_st d ?s ?h2")
  obtain sp h4 where s4: "specScores_st d ?s (specialists_ref refs) h3 = (sp, h4)"
    by (cases "specScores_st d ?s (specialists_ref refs) h3")
  obtain ch h5 where s5: "severityChart_st d pr h4 = (ch, h5)"
    by (cases "severityChart_st d pr h4")
  let ?out = "\<lparr>prevalenceResults_ref = pr, cooccurringSymptoms_ref = co,
                specScores_ref = sp, severityChart_ref = ch\<rparr>"
  from d sel s1 s3 s4 s5 have run: "Results_st refs st h = Some (?out, h5)"
    by (simp add: Results_st_def alloc_def)
  from s1 have p1: "prefix h h1"
    using prevalenceResults_st_frame by blast
  have p12: "prefix h1 ?h2" by simp
  from s3 have p23: "prefix ?h2 h3"
    using cooccurringSymptoms_st_frame by blast
  from s4 have p34: "prefix h3 h4"
    using specScores_st_frame by blast
  from s5 have p45: "prefix h4 h5"
    using severityChart_st_frame by blast
  from p12 p23 have p13: "prefix h1 h3" by (rule prefix_order.trans)
  from p13 p34 have p14: "prefix h1 h4" by (rule prefix_order.trans)
  from p1 p13 have p03: "prefix h h3" by (rule prefix_order.trans)
  from p34 p45 have p35: "prefix h3 h5" by (rule prefix_order.trans)
  from s1 have r1: "objects_at row_at h1 pr = Some (prevalenceResults d st sel)"
    by (rule prevalenceResults_st_refines)
  have set2: "lookup ?h2 ?s = Some (SetObj sel)"
    by simp
  from set2 s3 have r3: "objects_at suggestion_at h3 co = Some (cooccurringSymptoms d sel)"
    by (rule cooccurringSymptoms_st_refines)
  from p23 set2 have set3: "lookup h3 ?s = Some (SetObj sel)"
    by (rule lookup_prefix)
  from d have "objects_at specialist_at h (specialists_ref refs) = Some (specialists d)"
    by (rule load_dataset_specialists)
  with stable_objects_at [OF stable_specialist_at] p03
  have "objects_at specialist_at h3 (specialists_ref refs) = Some (specialists d)"
    by (rule stable_readerD)
  from this set3 s4 have r4: "objects_at spec_score_at h4 sp = Some (specScores d sel)"
    by (rule specScores_st_refines)
  from stable_objects_at [OF stable_row_at] p14 r1
  have r1': "objects_at row_at h4 pr = Some (prevalenceResults d st sel)"
    by (rule stable_readerD)
  from r1' s5 have r5: "objects_at chart_at h5 ch = Some (severityChart d st sel)"
    unfolding severityChart_def by (rule severityChart_st_refines)
  from stable_objects_at [OF stable_row_at] p45 r1'
  have a1: "objects_at row_at h5 pr = Some (prevalenceResults d st sel)"
    by (rule stable_readerD)
  from stable_objects_at [OF stable_suggestion_at] p35 r3
  have a2: "objects_at suggestion_at h5 co = Some (cooccurringSymptoms d sel)"
    by (rule stable_readerD)
  from stable_objects_at [OF stable_spec_score_at] p45 r4
  have a3: "objects_at spec_score_at h5 sp = Some (specScores d sel)"
    by (rule stable_readerD)
  from run a1 a2 a3 r5 show ?thesis
    by simp
qed

section \<open>Properties of the result computation\<close>

text \<open>
  Claim C1 (support threshold), as the code has it. A candidate \<open>y\<close> passes the filter
  \<open>v.count >= 2\<close> exactly when at least two contributions were accumulated for it, one for
  each row of the co-occurrence table with exactly one side selected and \<open>y\<close> on the other
  side. Evidence from two distinct selected symptoms always suffices. When every unordered
  pair of symptoms occurs in at most one row of the table, a candidate is kept exactly when
  its evidence comes from at least two distinct selected symptoms. Every suggestion that is
  returned comes from a candidate that passed the filter.
\<close>

theorem support_threshold:
  "((\<exists>v. (y, v) \<in> set (supported d sel)) \<longleftrightarrow>
      2 \<le> length (contributions (set sel) (cooccurrences d) y)) \<and>
   (2 \<le> card (evidence_sources (set sel) (cooccurrences d) y) \<longrightarrow>
      (\<exists>v. (y, v) \<in> set (supported d sel))) \<and>
   (each_pair_once (cooccurrences d) \<longrightarrow>
      ((\<exists>v. (y, v) \<in> set (supported d sel)) \<longleftrightarrow>
         2 \<le> card (evidence_sources (set sel) (cooccurrences d) y))) \<and>
   set (cooccurringSymptoms d sel) \<subseteq> suggestion_of d ` set (supported d sel)"
proof -
  let ?n = "length (contributions (set sel) (cooccurrences d) y)"
  let ?c = "card (evidence_sources (set sel) (cooccurrences d) y)"
  have kept: "(\<exists>v. (y, v) \<in> set (supported d sel)) \<longleftrightarrow> 2 \<le> ?n"
    by (simp add: mem_supported)
  have le: "?c \<le> ?n"
    by (rule card_sources_le)
  have eq: "each_pair_once (cooccurrences d) \<Longrightarrow> ?c = ?n"
    by (rule card_sources_eq)
  have "set (cooccurringSymptoms d sel)
          \<subseteq> set (sort_key (\<lambda>r. - avg_pct r) (map (suggestion_of d) (supported d sel)))"
    unfolding cooccurringSymptoms_def by (rule set_take_subset)
  then have out: "set (cooccurringSymptoms d sel) \<subseteq> suggestion_of d ` set (supported d sel)"
    by simp
  from kept le eq out show ?thesis
    by (metis le_trans)
qed

text \<open>
  The co-occurrence scenario of the specification: pairs \<open>(1, 3, 50)\<close>, \<open>(1, 4, 80)\<close>,
  \<open>(2, 3, 60)\<close> and the selection \<open>{1, 2}\<close>. Candidate 3 is kept, candidate 4 is not.
\<close>

theorem support_threshold_witness:
  "each_pair_once (cooccurrences cooc_scenario) \<and>
   (\<exists>v. (3, v) \<in> set (supported cooc_scenario [1, 2])) \<and>
   2 \<le> card (evidence_sources (set [1, 2]) (cooccurrences cooc_scenario) 3) \<and>
   \<not> (\<exists>v. (4, v) \<in> set (supported cooc_scenario [1, 2]))"
proof -
  have once: "each_pair_once (cooccurrences cooc_scenario)"
    by (simp add: each_pair_once_def cooc_scenario_def no_data_def doubleton_eq_iff)
  have kept: "\<exists>v. (3, v) \<in> set (supported cooc_scenario [1, 2])"
    unfolding supported_cooc_scenario by simp
  have dropped: "\<not> (\<exists>v. (4, v) \<in> set (supported cooc_scenario [1, 2]))"
    unfolding supported_cooc_scenario by simp
  from once kept dropped support_threshold [of 3 cooc_scenario "[1, 2]"]
  show ?thesis by blast
qed

text \<open>
  The table may hold both directions of a pair as separate rows. With the rows
  \<open>(1, 3, 95)\<close> and \<open>(3, 1, 90)\<close> and the selection \<open>[1]\<close>, candidate 3 has evidence from the
  single selected symptom 1, yet its count is 2 and it is suggested.
\<close>

theorem single_source_kept_counterexample:
  "card (evidence_sources (set [1]) (cooccurrences both_directions) 3) = 1 \<and>
   (3, \<lparr>total = 185, count = 2\<rparr>) \<in> set (supported both_directions [1]) \<and>
   cooccurringSymptoms both_directions [1] =
     [\<lparr>symptom_name = js_str ''Symptom 3'', icon = [], avg_pct = 93\<rparr>]"
proof -
  have "evidence_sources (set [1]) (cooccurrences both_directions) 3 = {1}"
    by (auto simp: evidence_sources_def both_directions_def no_data_def)
  then have a: "card (evidence_sources (set [1]) (cooccurrences both_directions) 3) = 1"
    by simp
  have b: "(3, \<lparr>total = 185, count = 2\<rparr>) \<in> set (supported both_directions [1])"
    unfolding supported_both_directions by simp
  have "prevalence both_directions 3 = None"
    by (simp add: both_directions_def no_data_def)
  then have c: "cooccurringSymptoms both_directions [1] =
     [\<lparr>symptom_name = js_str ''Symptom 3'', icon = [], avg_pct = 93\<rparr>]"
    unfolding cooccurringSymptoms_def supported_both_directions
    by (simp add: suggestion_of_def placeholder_name_def js_str_def String_of_digit
        digit_unit_def Math_round_eq_iff)
  from a b c show ?thesis by blast
qed

text \<open>
  Claim C2 (duplicate tolerance), as the code has it. \<open>prevalenceResults\<close> maps over the
  selection without collapsing repeated ids: it has one row for each element of the selection,
  so an id selected twice gives two equal rows. The rows of a selection and of the selection
  without its duplicates are the same when multiplicity is ignored.
\<close>

theorem duplicate_selection_rows:
  "set (prevalenceResults d st sel) = set (prevalenceResults d st (remdups sel)) \<and>
   mset (prevalenceResults d st sel) = image_mset (prevalence_of d st) (mset sel) \<and>
   length (prevalenceResults d st sel) = length sel"
  by (simp add: prevalenceResults_def)

text \<open>
  With the selection \<open>[1, 1]\<close> the row of symptom 1 appears twice; with the duplicate removed
  it appears once.
\<close>

theorem duplicate_selection_counterexample:
  "prevalenceResults one_symptom a_stage [1, 1] = [fatigue_row, fatigue_row] \<and>
   prevalenceResults one_symptom a_stage (remdups [1, 1]) = [fatigue_row] \<and>
   \<not> distinct (prevalenceResults one_symptom a_stage [1, 1])"
  by (simp add: prevalenceResults_def prevalence_of_one_symptom del: One_nat_def)

text \<open>
  Claim C3. The rows of \<open>prevalenceResults\<close> are in descending order of their effective
  percentage. In the end-to-end scenario (overall prevalence 30 for symptom 1 and 70 for
  symptom 2, a stage entry 40 for symptom 1 only, selection \<open>[1, 2]\<close>) the rows are symptom 2
  with 70, then symptom 1 with 40, whatever the names, the icons and the other tables.
\<close>

theorem prevalence_sorted_descending:
  "sorted_wrt (\<lambda>a b. percentage a \<ge> percentage b) (prevalenceResults d st sel) \<and>
   map (\<lambda>r. (symptom_id r, percentage r))
     (prevalenceResults
        \<lparr>prevalence =
           [1 \<mapsto> \<lparr>prevalence_entry.symptom_name = n1, category_icon = c1, percentage = Some 30\<rparr>,
            2 \<mapsto> \<lparr>prevalence_entry.symptom_name = n2, category_icon = c2, percentage = Some 70\<rparr>],
         prevalenceByStage =
           [s \<mapsto> [1 \<mapsto> \<lparr>prevalence_entry.symptom_name = n3, category_icon = c3,
                          percentage = Some 40\<rparr>]],
         cooccurrences = co, specialists = sp, severity = sv\<rparr>
        \<lparr>stage_id = s, stage_name = nm\<rparr> [1, 2])
     = [(2, 70), (1, 40)]"
proof
  show "sorted_wrt (\<lambda>a b. percentage a \<ge> percentage b) (prevalenceResults d st sel)"
    unfolding prevalenceResults_def by (rule sorted_desc_sort_key)
  show "map (\<lambda>r. (symptom_id r, percentage r))
     (prevalenceResults
        \<lparr>prevalence =
           [1 \<mapsto> \<lparr>prevalence_entry.symptom_name = n1, category_icon = c1, percentage = Some 30\<rparr>,
            2 \<mapsto> \<lparr>prevalence_entry.symptom_name = n2, category_icon = c2, percentage = Some 70\<rparr>],
         prevalenceByStage =
           [s \<mapsto> [1 \<mapsto> \<lparr>prevalence_entry.symptom_name = n3, category_icon = c3,
                          percentage = Some 40\<rparr>]],
         cooccurrences = co, specialists = sp, severity = sv\<rparr>
        \<lparr>stage_id = s, stage_name = nm\<rparr> [1, 2])
     = [(2, 70), (1, 40)]"
    by (simp add: prevalenceResults_def prevalence_of_def entry_or_empty_def stagePrevalence_def
        empty_entry_def)
qed

text \<open>
  Claim C4 (fallback). For a symptom with an overall entry and no entry in the table of the
  chosen stage, whatever the stage, every row of that symptom carries the overall percentage
  (0 when the entry has none), and the symptom has a row when it is selected.
\<close>

theorem overall_fallback:
  assumes "prevalence d i = Some e" and "stagePrevalence d st i = None"
  shows "(\<forall>r \<in> set (prevalenceResults d st sel). symptom_id r = i \<longrightarrow>
            percentage r = (case prevalence_entry.percentage e of None \<Rightarrow> 0 | Some p \<Rightarrow> p)) \<and>
         (i \<in> set sel \<longrightarrow> (\<exists>r \<in> set (prevalenceResults d st sel). symptom_id r = i))"
proof -
  have "percentage (prevalence_of d st i) =
          (case prevalence_entry.percentage e of None \<Rightarrow> 0 | Some p \<Rightarrow> p)"
    using assms
    by (simp add: prevalence_of_def entry_or_empty_def empty_entry_def num_or_zero)
  then show ?thesis
    by (auto simp: set_prevalenceResults)
qed

text \<open>
  Symptom 1 has the overall percentage 30 and no stage table exists: its row carries 30.
\<close>

theorem overall_fallback_witness:
  "prevalence one_symptom 1 = Some \<lparr>prevalence_entry.symptom_name = Some (js_str ''Fatigue''),
              category_icon = Some (js_str ''*''), percentage = Some 30\<rparr> \<and>
   stagePrevalence one_symptom a_stage 1 = None \<and>
   prevalenceResults one_symptom a_stage [1] = [fatigue_row] \<and>
   percentage fatigue_row = 30"
proof -
  let ?e = "\<lparr>prevalence_entry.symptom_name = Some (js_str ''Fatigue''),
              category_icon = Some (js_str ''*''), percentage = Some 30\<rparr>"
  have e: "prevalence one_symptom 1 = Some ?e"
    by (simp add: one_symptom_def no_data_def)
  have s: "stagePrevalence one_symptom a_stage 1 = None"
    by (simp add: stagePrevalence_def one_symptom_def no_data_def)
  have r: "prevalenceResults one_symptom a_stage [1] = [fatigue_row]"
    by (simp add: prevalenceResults_def prevalence_of_one_symptom del: One_nat_def)
  have "\<forall>r \<in> set (prevalenceResults one_symptom a_stage [1]). symptom_id r = 1 \<longrightarrow>
          percentage r = (case prevalence_entry.percentage ?e of None \<Rightarrow> 0 | Some p \<Rightarrow> p)"
    using overall_fallback [OF e s, of "[1]"] by blast
  then have "percentage fatigue_row = 30"
    unfolding r by (simp add: fatigue_row_def)
  with e s r show ?thesis by blast
qed

text \<open>
  Claim C5 (unknown id). Let \<open>i\<close> be an id that no table knows: no overall entry, no entry
  for the chosen stage, no severity entry, no co-occurrence row and no specialist mention it.
  Its prevalence row has the name \<open>Symptom i\<close>, an empty icon and the percentages 0, and it
  is in the result when \<open>i\<close> is selected; its chart row has three zeros; the suggestions and
  the specialist matches are those of the selection without \<open>i\<close>. Every lookup by id is a
  branch with a default in the functions above, which have no error result; and on a store
  whose arguments hold the dataset and the selection, the component returns and its first
  array holds the prevalence rows, whatever ids are selected.
\<close>

theorem unknown_id_defaults:
  assumes "prevalence d i = None"
    and "stagePrevalence d st i = None"
    and "severity d i = None"
    and "\<forall>row \<in> set (cooccurrences d). symptom_id_a row \<noteq> i \<and> symptom_id_b row \<noteq> i"
    and "\<forall>sp \<in> set (specialists d). i \<notin> set (symptom_ids sp)"
  shows "prevalence_of d st i = unknown_row i \<and>
         (i \<in> set sel \<longrightarrow> unknown_row i \<in> set (prevalenceResults d st sel)) \<and>
         chart_row_of d (unknown_row i) =
           \<lparr>name = chart_label (placeholder_name i), Mild = 0, Moderate = 0, Severe = 0\<rparr> \<and>
         cooccurringSymptoms d sel = cooccurringSymptoms d (removeAll i sel) \<and>
         specScores d sel = specScores d (removeAll i sel) \<and>
         (load_dataset h refs = Some d \<and> numbers_at h (selectedSymptoms_ref refs) = Some sel \<longrightarrow>
            (\<exists>out h'. Results_st refs st h = Some (out, h') \<and>
               objects_at row_at h' (prevalenceResults_ref out)
                 = Some (prevalenceResults d st sel)))"
proof -
  from assms(1,2) have row: "prevalence_of d st i = unknown_row i"
    by (rule prevalence_of_unknown)
  have mem: "i \<in> set sel \<longrightarrow> unknown_row i \<in> set (prevalenceResults d st sel)"
    unfolding set_prevalenceResults row [symmetric] by blast
  from assms(3) have chart: "chart_row_of d (unknown_row i) =
      \<lparr>name = chart_label (placeholder_name i), Mild = 0, Moderate = 0, Severe = 0\<rparr>"
    by (simp add: chart_row_of_def unknown_row_def empty_severity_def)
  from assms(4) have "coocScores d (removeAll i sel) = coocScores d sel"
    by (rule coocScores_removeAll)
  then have cooc: "cooccurringSymptoms d sel = cooccurringSymptoms d (removeAll i sel)"
    by (simp add: cooccurringSymptoms_def supported_def)
  from assms(5) have spec: "specScores d (removeAll i sel) = specScores d sel"
    by (rule specScores_removeAll)
  have run: "\<exists>out h'. Results_st refs st h = Some (out, h') \<and>
               objects_at row_at h' (prevalenceResults_ref out) = Some (prevalenceResults d st sel)"
    if "load_dataset h refs = Some d" and "numbers_at h (selectedSymptoms_ref refs) = Some sel"
    using Results_st_refines [OF that, of st] by blast
  from row mem chart cooc spec run show ?thesis
    by simp
qed

text \<open>
  The id 42 in the dataset of the example store: the row is named \<open>Symptom 42\<close>, selecting 42
  as well as 1 leaves the suggestions and the specialist matches as they are, and the
  component returns on the store whose selection is \<open>[1, 42]\<close>.
\<close>

theorem unknown_id_defaults_witness:
  "prevalence ex_dataset 42 = None \<and>
   stagePrevalence ex_dataset a_stage 42 = None \<and>
   severity ex_dataset 42 = None \<and>
   list_all (\<lambda>row. symptom_id_a row \<noteq> 42 \<and> symptom_id_b row \<noteq> 42) (cooccurrences ex_dataset) \<and>
   list_all (\<lambda>sp. 42 \<notin> set (symptom_ids sp)) (specialists ex_dataset) \<and>
   42 \<in> set [1, 42] \<and>
   unknown_row 42 =
     \<lparr>symptom_id = 42, symptom_name = js_str ''Symptom 42'', category_icon = [],
      percentage = 0, overall_percentage = 0\<rparr> \<and>
   unknown_row 42 \<in> set (prevalenceResults ex_dataset a_stage [1, 42]) \<and>
   specScores ex_dataset [1, 42] = specScores ex_dataset [1] \<and>
   cooccurringSymptoms ex_dataset [1, 42] = cooccurringSymptoms ex_dataset [1] \<and>
   load_dataset unknown_store ex_refs = Some ex_dataset \<and>
   numbers_at unknown_store (selectedSymptoms_ref ex_refs) = Some [1, 42] \<and>
   (\<exists>out h'. Results_st ex_refs a_stage unknown_store = Some (out, h'))"
proof -
  have p: "prevalence ex_dataset 42 = None"
    by (simp add: ex_dataset_def)
  have s: "stagePrevalence ex_dataset a_stage 42 = None"
    by (simp add: stagePrevalence_def ex_dataset_def a_stage_def)
  have v: "severity ex_dataset 42 = None"
    by (simp add: ex_dataset_def)
  have c: "\<forall>row \<in> set (cooccurrences ex_dataset).
             symptom_id_a row \<noteq> 42 \<and> symptom_id_b row \<noteq> 42"
    by (simp add: ex_dataset_def)
  have m: "\<forall>sp \<in> set (specialists ex_dataset). 42 \<notin> set (symptom_ids sp)"
    by (simp add: ex_dataset_def)
  have n: "numbers_at unknown_store (selectedSymptoms_ref ex_refs) = Some [1, 42]"
    by (simp add: numbers_at_def lookup_def unknown_store_def ex_store_def ex_refs_def)
  have u: "unknown_row 42 =
     \<lparr>symptom_id = 42, symptom_name = js_str ''Symptom 42'', category_icon = [],
      percentage = 0, overall_percentage = 0\<rparr>"
    by (simp add: unknown_row_def placeholder_name_def String_of_42 js_str_def)
  note t = unknown_id_defaults [OF p s v c m, of "[1, 42]" unknown_store ex_refs]
  from t have r: "unknown_row 42 \<in> set (prevalenceResults ex_dataset a_stage [1, 42])"
    by simp
  from t have "specScores ex_dataset [1, 42] = specScores ex_dataset (removeAll 42 [1, 42])"
    by blast
  then have sp: "specScores ex_dataset [1, 42] = specScores ex_dataset [1]"
    by simp
  from t have "cooccurringSymptoms ex_dataset [1, 42]
      = cooccurringSymptoms ex_dataset (removeAll 42 [1, 42])"
    by blast
  then have co: "cooccurringSymptoms ex_dataset [1, 42] = cooccurringSymptoms ex_dataset [1]"
    by simp
  from t load_unknown_store n
  have run: "\<exists>out h'. Results_st ex_refs a_stage unknown_store = Some (out, h')"
    by blast
  from c have c': "list_all (\<lambda>row. symptom_id_a row \<noteq> 42 \<and> symptom_id_b row \<noteq> 42)
     (cooccurrences ex_dataset)"
    by (simp add: list_all_iff)
  from m have m': "list_all (\<lambda>sp. 42 \<notin> set (symptom_ids sp)) (specialists ex_dataset)"
    by (simp add: list_all_iff)
  from p s v c' m' u r sp co load_unknown_store n run show ?thesis
    by simp
qed



text \<open>
  Claim C7, as the code has it. The score of every candidate that passed the filter is
  \<open>Math.round\<close> of the mean as the code computes it: the percentages of the candidate are added
  one by one in the order of the table, each sum rounded to a double, and the total is divided
  by their number, the quotient rounded to a double. When the percentages are non-negative
  integers with a sum below \<open>2^52\<close>, this is \<open>Math.round\<close> of their arithmetic mean, which is
  within one half of the mean. The result is the first five elements of a ranking of all those
  candidates by descending score. It is the empty list when no candidate has two
  contributions.
\<close>

theorem suggestions_mean_top5:
  "(\<forall>kv \<in> set (supported d sel).
      avg_pct (suggestion_of d kv) =
        Math_round (to_double
          (double_sum 0 (contributions (set sel) (cooccurrences d) (fst kv))
             / of_nat (length (contributions (set sel) (cooccurrences d) (fst kv))))) \<and>
      (whole_percentages (contributions (set sel) (cooccurrences d) (fst kv)) \<longrightarrow>
         avg_pct (suggestion_of d kv) =
           Math_round (sum_list (contributions (set sel) (cooccurrences d) (fst kv))
                        / of_nat (length (contributions (set sel) (cooccurrences d) (fst kv)))) \<and>
         \<bar>of_int (avg_pct (suggestion_of d kv))
            - sum_list (contributions (set sel) (cooccurrences d) (fst kv))
                / of_nat (length (contributions (set sel) (cooccurrences d) (fst kv)))\<bar> \<le> 1 / 2)) \<and>
   (\<exists>ranked. mset ranked = mset (map (suggestion_of d) (supported d sel)) \<and>
      sorted_wrt (\<lambda>a b. avg_pct a \<ge> avg_pct b) ranked \<and>
      cooccurringSymptoms d sel = take 5 ranked) \<and>
   ((\<forall>y. length (contributions (set sel) (cooccurrences d) y) < 2) \<longrightarrow>
      cooccurringSymptoms d sel = [])"
proof (intro conjI ballI impI)
  fix kv
  assume kv: "kv \<in> set (supported d sel)"
  let ?cs = "contributions (set sel) (cooccurrences d) (fst kv)"
  from kv show m: "avg_pct (suggestion_of d kv) =
      Math_round (to_double (double_sum 0 ?cs / of_nat (length ?cs)))"
    by (rule avg_pct_supported)
  from kv have "2 \<le> length ?cs"
    using mem_supported [of "fst kv" "snd kv" d sel] by simp
  then have len: "0 < length ?cs" by linarith
  assume whole: "whole_percentages ?cs"
  from whole len show e: "avg_pct (suggestion_of d kv) = Math_round (sum_list ?cs / of_nat (length ?cs))"
    unfolding m by (rule whole_percentages_exact)
  show "\<bar>of_int (avg_pct (suggestion_of d kv)) - sum_list ?cs / of_nat (length ?cs)\<bar> \<le> 1 / 2"
    unfolding e by (rule Math_round_nearest)
next
  let ?ranked = "sort_key (\<lambda>r. - avg_pct r) (map (suggestion_of d) (supported d sel))"
  have "mset ?ranked = mset (map (suggestion_of d) (supported d sel))"
    by simp
  moreover have "sorted_wrt (\<lambda>a b. avg_pct a \<ge> avg_pct b) ?ranked"
    by (rule sorted_desc_sort_key)
  moreover have "cooccurringSymptoms d sel = take 5 ?ranked"
    by (simp add: cooccurringSymptoms_def)
  ultimately show "\<exists>ranked. mset ranked = mset (map (suggestion_of d) (supported d sel)) \<and>
      sorted_wrt (\<lambda>a b. avg_pct a \<ge> avg_pct b) ranked \<and>
      cooccurringSymptoms d sel = take 5 ranked"
    by blast
next
  assume "\<forall>y. length (contributions (set sel) (cooccurrences d) y) < 2"
  then have "supported d sel = []"
    by (rule no_support_empty)
  then show "cooccurringSymptoms d sel = []"
    by (simp add: cooccurringSymptoms_def)
qed

text \<open>
  In the co-occurrence scenario candidate 3 has the whole contributions 50 and 60 and the
  score 55. With the percentages 21.4, 43.3 and 44.8 the sum in doubles is
  109.49999999999999, the quotient 36.49999999999999 and the score 36. With the empty
  selection nothing contributes and the result is empty.
\<close>

theorem suggestions_mean_top5_witness:
  "(3, \<lparr>total = 110, count = 2\<rparr>) \<in> set (supported cooc_scenario [1, 2]) \<and>
   contributions (set [1, 2]) (cooccurrences cooc_scenario) 3 = [50, 60] \<and>
   whole_percentages [50, 60] \<and>
   avg_pct (suggestion_of cooc_scenario (3, \<lparr>total = 110, count = 2\<rparr>)) = 55 \<and>
   (3, \<lparr>total = 7705377487454207 / 70368744177664, count = 3\<rparr>)
      \<in> set (supported decimal_triple [1, 2, 4]) \<and>
   contributions (set [1, 2, 4]) (cooccurrences decimal_triple) 3 =
     [to_double (214 / 10), to_double (433 / 10), to_double (448 / 10)] \<and>
   avg_pct (suggestion_of decimal_triple
              (3, \<lparr>total = 7705377487454207 / 70368744177664, count = 3\<rparr>)) = 36 \<and>
   (\<forall>y. length (contributions (set []) (cooccurrences cooc_scenario) y) < 2) \<and>
   cooccurringSymptoms cooc_scenario [] = []"
proof -
  have kept: "(3, \<lparr>total = 110, count = 2\<rparr>) \<in> set (supported cooc_scenario [1, 2])"
    unfolding supported_cooc_scenario by simp
  have ps: "contributions (set [1, 2]) (cooccurrences cooc_scenario) 3 = [50, 60]"
    by (simp add: contributions_def contribution_def cooc_scenario_def no_data_def)
  have whole: "whole_percentages [50, 60]"
    by (simp add: whole_percentages_def)
  have none: "\<forall>y. length (contributions (set []) (cooccurrences cooc_scenario) y) < 2"
    by (simp add: contributions_def contribution_def cooc_scenario_def no_data_def)
  have "avg_pct (suggestion_of cooc_scenario (3, \<lparr>total = 110, count = 2\<rparr>)) =
          Math_round (sum_list (contributions (set [1, 2]) (cooccurrences cooc_scenario) 3)
             / of_nat (length (contributions (set [1, 2]) (cooccurrences cooc_scenario) 3)))"
    using suggestions_mean_top5 [of cooc_scenario "[1, 2]"] kept whole ps by fastforce
  then have avg: "avg_pct (suggestion_of cooc_scenario (3, \<lparr>total = 110, count = 2\<rparr>)) = 55"
    unfolding ps by (simp add: Math_round_eq_iff)
  let ?v = "\<lparr>total = 7705377487454207 / 70368744177664, count = 3\<rparr>"
  have kept3: "(3, ?v) \<in> set (supported decimal_triple [1, 2, 4])"
    unfolding supported_decimal_triple by simp
  have ps3: "contributions (set [1, 2, 4]) (cooccurrences decimal_triple) 3 =
     [to_double (214 / 10), to_double (433 / 10), to_double (448 / 10)]"
    by (simp add: contributions_def contribution_def decimal_triple_def no_data_def)
  have "avg_pct (suggestion_of decimal_triple (3, ?v)) =
          Math_round (to_double
            (double_sum 0 (contributions (set [1, 2, 4]) (cooccurrences decimal_triple) 3)
               / of_nat (length (contributions (set [1, 2, 4]) (cooccurrences decimal_triple) 3))))"
    using suggestions_mean_top5 [of decimal_triple "[1, 2, 4]"] kept3 by fastforce
  then have avg3: "avg_pct (suggestion_of decimal_triple (3, ?v)) = 36"
    unfolding ps3 by (simp add: double_sum_def decimal_simps Math_round_eq_iff)
  have "cooccurringSymptoms cooc_scenario [] = []"
    using suggestions_mean_top5 [of cooc_scenario "[]"] none by blast
  with kept ps whole avg kept3 ps3 avg3 none show ?thesis by blast
qed

text \<open>
  The score is not always the arithmetic mean rounded to the nearest integer. The percentages
  79.6 and 57.4 are the doubles \<open>2800676018271027 / 2^45\<close> and \<open>8078331831595827 / 2^47\<close>. Their
  sum is \<open>137 - 2^(-47)\<close>, which is rounded to the double 137, and the score is
  \<open>Math.round (68.5) = 69\<close>. Their arithmetic mean is below 68.5: the nearest integer is 68, and
  69 is more than one half away.
\<close>

theorem rounded_sum_counterexample:
  "contributions (set [1, 2]) (cooccurrences decimal_pair) 3 =
     [2800676018271027 / 2 ^ 45, 8078331831595827 / 2 ^ 47] \<and>
   cooccurringSymptoms decimal_pair [1, 2] =
     [\<lparr>symptom_name = js_str ''Symptom 3'', icon = [], avg_pct = 69\<rparr>] \<and>
   Math_round (sum_list (contributions (set [1, 2]) (cooccurrences decimal_pair) 3)
      / of_nat (length (contributions (set [1, 2]) (cooccurrences decimal_pair) 3))) = 68 \<and>
   1 / 2 < \<bar>69 - sum_list (contributions (set [1, 2]) (cooccurrences decimal_pair) 3)
                   / of_nat (length (contributions (set [1, 2]) (cooccurrences decimal_pair) 3))\<bar>"
proof -
  have ps: "contributions (set [1, 2]) (cooccurrences decimal_pair) 3 =
     [2800676018271027 / 2 ^ 45, 8078331831595827 / 2 ^ 47]"
    by (simp add: contributions_def contribution_def decimal_pair_def no_data_def decimal_simps)
  have "prevalence decimal_pair 3 = None"
    by (simp add: decimal_pair_def no_data_def)
  then have out: "cooccurringSymptoms decimal_pair [1, 2] =
     [\<lparr>symptom_name = js_str ''Symptom 3'', icon = [], avg_pct = 69\<rparr>]"
    unfolding cooccurringSymptoms_def supported_decimal_pair
    by (simp add: suggestion_of_def placeholder_name_def js_str_def String_of_digit
        digit_unit_def Math_round_eq_iff)
  have mean: "Math_round (sum_list (contributions (set [1, 2]) (cooccurrences decimal_pair) 3)
      / of_nat (length (contributions (set [1, 2]) (cooccurrences decimal_pair) 3))) = 68"
    unfolding ps by (simp add: Math_round_eq_iff)
  have far: "1 / 2 < \<bar>69 - sum_list (contributions (set [1, 2]) (cooccurrences decimal_pair) 3)
                   / of_nat (length (contributions (set [1, 2]) (cooccurrences decimal_pair) 3))\<bar>"
    unfolding ps by simp
  from ps out mean far show ?thesis by blast
qed

text \<open>
  Claim C8 (purity). When the component runs on a store, every cell that existed before the
  call is unchanged afterwards: the store before is a prefix of the store after. So the
  dataset and the selection read from the arguments are the same before and after. The four
  derived collections are new arrays whose elements are new objects, and the \<open>matched\<close> and
  \<open>matchedNames\<close> of every returned specialist are new arrays.
\<close>

theorem inputs_unchanged_outputs_fresh:
  assumes "Results_st refs st h = Some (out, h')"
  shows "prefix h h' \<and>
         load_dataset h' refs = load_dataset h refs \<and>
         numbers_at h' (selectedSymptoms_ref refs) = numbers_at h (selectedSymptoms_ref refs) \<and>
         fresh_array (length h) h' (prevalenceResults_ref out) \<and>
         fresh_array (length h) h' (cooccurringSymptoms_ref out) \<and>
         fresh_array (length h) h' (specScores_ref out) \<and>
         (\<exists>as. lookup h' (specScores_ref out) = Some (Refs as) \<and>
               list_all (fresh_matches (length h) h') as) \<and>
         fresh_array (length h) h' (severityChart_ref out)"
proof -
  from assms obtain d sel where d: "load_dataset h refs = Some d"
    and sel: "numbers_at h (selectedSymptoms_ref refs) = Some sel"
    by (auto simp: Results_st_def split: Option.bind_splits)
  obtain pr h1 where s1: "prevalenceResults_st d st sel h = (pr, h1)"
    by (cases "prevalenceResults_st d st sel h")
  let ?h2 = "h1 @ [SetObj sel]"
  obtain co h3 where s3: "cooccurringSymptoms_st d (length h1) ?h2 = (co, h3)"
    by (cases "cooccurringSymptoms_st d (length h1) ?h2")
  obtain sp h4 where s4: "specScores_st d (length h1) (specialists_ref refs) h3 = (sp, h4)"
    by (cases "specScores_st d (length h1) (specialists_ref refs) h3")
  obtain ch h5 where s5: "severityChart_st d pr h4 = (ch, h5)"
    by (cases "severityChart_st d pr h4")
  from assms d sel s1 s3 s4 s5
  have out: "out = \<lparr>prevalenceResults_ref = pr, cooccurringSymptoms_ref = co,
                     specScores_ref = sp, severityChart_ref = ch\<rparr>" and h': "h' = h5"
    by (simp_all add: Results_st_def alloc_def)
  from s1 have p1: "prefix h h1" and f1: "fresh_array (length h) h1 pr"
    using prevalenceResults_st_frame by blast+
  from p1 have p2: "prefix h ?h2" by simp
  from s3 have p3: "prefix ?h2 h3" and f3: "fresh_array (length ?h2) h3 co"
    using cooccurringSymptoms_st_frame by blast+
  from s4 have p4: "prefix h3 h4" and f4: "fresh_array (length h3) h4 sp"
    and m4: "\<exists>as. lookup h4 sp = Some (Refs as) \<and> list_all (fresh_matches (length h3) h4) as"
    using specScores_st_frame by blast+
  from s5 have p5: "prefix h4 h5" and f5: "fresh_array (length h4) h5 ch"
    using severityChart_st_frame by blast+
  have p12: "prefix h1 ?h2" by simp
  from p2 p3 have q3: "prefix h h3" by (rule prefix_order.trans)
  from q3 p4 have q4: "prefix h h4" by (rule prefix_order.trans)
  from q4 p5 have q5: "prefix h h5" by (rule prefix_order.trans)
  from p12 p3 have "prefix h1 h3" by (rule prefix_order.trans)
  then have "prefix h1 h4" using p4 by (rule prefix_order.trans)
  then have p15: "prefix h1 h5" using p5 by (rule prefix_order.trans)
  from p4 p5 have p35: "prefix h3 h5" by (rule prefix_order.trans)
  have n2: "length h \<le> length ?h2" using p2 by (rule prefix_length_le)
  have n3: "length h \<le> length h3" using q3 by (rule prefix_length_le)
  have n4: "length h \<le> length h4" using q4 by (rule prefix_length_le)
  from d q5 have ld: "load_dataset h5 refs = load_dataset h refs"
    by (simp add: load_dataset_stable)
  from stable_numbers_at q5 sel have ns: "numbers_at h5 (selectedSymptoms_ref refs) = Some sel"
    by (rule stable_readerD)
  from f1 p15 have a1: "fresh_array (length h) h5 pr"
    by (rule fresh_array_prefix)
  from f3 p35 have "fresh_array (length ?h2) h5 co"
    by (rule fresh_array_prefix)
  then have a2: "fresh_array (length h) h5 co"
    using n2 by (rule fresh_array_weaken)
  from f4 p5 have "fresh_array (length h3) h5 sp"
    by (rule fresh_array_prefix)
  then have a3: "fresh_array (length h) h5 sp"
    using n3 by (rule fresh_array_weaken)
  from m4 obtain as where as: "lookup h4 sp = Some (Refs as)"
    and ms: "list_all (fresh_matches (length h3) h4) as"
    by blast
  from p5 as have as5: "lookup h5 sp = Some (Refs as)"
    by (rule lookup_prefix)
  from ms p5 n3 have "list_all (fresh_matches (length h) h5) as"
    by (auto simp: list_all_iff intro: fresh_matches_prefix fresh_matches_weaken)
  with as5 have a4: "\<exists>as. lookup h5 sp = Some (Refs as) \<and>
      list_all (fresh_matches (length h) h5) as"
    by blast
  from f5 n4 have a5: "fresh_array (length h) h5 ch"
    by (rule fresh_array_weaken)
  from q5 ld ns sel a1 a2 a3 a4 a5 show ?thesis
    unfolding out h' by simp
qed

text \<open>
  A run on a store of 14 cells: the selection \<open>[1, 2]\<close>, one overall entry, one stage entry,
  two co-occurrence rows, one specialist and one severity entry.
\<close>

theorem inputs_unchanged_outputs_fresh_witness:
  "\<exists>h'. Results_st ex_refs a_stage ex_store = Some (ex_out, h') \<and>
         prefix ex_store h' \<and>
         load_dataset h' ex_refs = load_dataset ex_store ex_refs \<and>
         fresh_array 14 h' 16 \<and> fresh_array 14 h' 25 \<and> fresh_array 14 h' 31 \<and>
         fresh_array 14 h' 34"
proof -
  from ex_run obtain h' where run: "Results_st ex_refs a_stage ex_store = Some (ex_out, h')"
    by blast
  have n: "length ex_store = 14"
    by (simp add: ex_store_def)
  from inputs_unchanged_outputs_fresh [OF run] run show ?thesis
    unfolding n by (auto simp: ex_out_def)
qed

text \<open>
  Claim C9. The severity chart has one row for each prevalence row, in the same order. The
  label of a row is the symptom name when it has at most 15 code units, and otherwise its
  first 15 code units followed by the ellipsis; in both cases the label and the name agree on
  their first 15 code units. Each of the three percentages is the value of the severity
  lookup, or 0 when the entry or that field of the entry is missing.
\<close>

theorem severity_chart_rows:
  "length (severityChart d st sel) = length (prevalenceResults d st sel) \<and>
   (\<forall>k < length (prevalenceResults d st sel).
      let r = prevalenceResults d st sel ! k;
          c = severityChart d st sel ! k;
          nm = prevalence_row.symptom_name r
      in name c = (if length nm \<le> 15 then nm else take 15 nm @ [ellipsis]) \<and>
         take 15 (name c) = take 15 nm \<and>
         Mild c = (case Option.bind (severity d (symptom_id r)) pct_mild of
                     None \<Rightarrow> 0 | Some v \<Rightarrow> v) \<and>
         Moderate c = (case Option.bind (severity d (symptom_id r)) pct_moderate of
                         None \<Rightarrow> 0 | Some v \<Rightarrow> v) \<and>
         Severe c = (case Option.bind (severity d (symptom_id r)) pct_severe of
                       None \<Rightarrow> 0 | Some v \<Rightarrow> v))"
proof (intro conjI allI impI)
  show "length (severityChart d st sel) = length (prevalenceResults d st sel)"
    by (simp add: severityChart_def)
next
  fix k
  assume k: "k < length (prevalenceResults d st sel)"
  let ?r = "prevalenceResults d st sel ! k"
  have c: "severityChart d st sel ! k = chart_row_of d ?r"
    using k by (simp add: severityChart_def)
  have "take 15 (chart_label nm) = take 15 nm" for nm
    by (simp add: chart_label_def)
  then show "let r = ?r; c = severityChart d st sel ! k; nm = prevalence_row.symptom_name r
      in name c = (if length nm \<le> 15 then nm else take 15 nm @ [ellipsis]) \<and>
         take 15 (name c) = take 15 nm \<and>
         Mild c = (case Option.bind (severity d (symptom_id r)) pct_mild of
                     None \<Rightarrow> 0 | Some v \<Rightarrow> v) \<and>
         Moderate c = (case Option.bind (severity d (symptom_id r)) pct_moderate of
                         None \<Rightarrow> 0 | Some v \<Rightarrow> v) \<and>
         Severe c = (case Option.bind (severity d (symptom_id r)) pct_severe of
                       None \<Rightarrow> 0 | Some v \<Rightarrow> v)"
    unfolding c Let_def chart_row_of_fields by (simp add: chart_label_def)
qed

text \<open>
  A symptom with a name of 26 code units, and a severity entry without \<open>pct_moderate\<close>.
\<close>

theorem severity_chart_rows_witness:
  "(0::nat) < length (prevalenceResults long_name a_stage [1]) \<and>
   prevalenceResults long_name a_stage [1] ! 0 = long_name_row \<and>
   name (severityChart long_name a_stage [1] ! 0) = js_str ''Irregular menst'' @ [ellipsis] \<and>
   Mild (severityChart long_name a_stage [1] ! 0) = 20 \<and>
   Moderate (severityChart long_name a_stage [1] ! 0) = 0 \<and>
   Severe (severityChart long_name a_stage [1] ! 0) = 5"
proof -
  have k: "(0::nat) < length (prevalenceResults long_name a_stage [1])"
    unfolding prevalenceResults_long_name by simp
  have r: "prevalenceResults long_name a_stage [1] ! 0 = long_name_row"
    unfolding prevalenceResults_long_name by simp
  have sev: "severity long_name 1 = Some \<lparr>pct_mild = Some 20, pct_moderate = None, pct_severe = Some 5\<rparr>"
    by (simp add: long_name_def no_data_def)
  from severity_chart_rows [of long_name a_stage "[1]"] k
  have "let r = prevalenceResults long_name a_stage [1] ! 0;
          c = severityChart long_name a_stage [1] ! 0;
          nm = prevalence_row.symptom_name r
      in name c = (if length nm \<le> 15 then nm else take 15 nm @ [ellipsis]) \<and>
         take 15 (name c) = take 15 nm \<and>
         Mild c = (case Option.bind (severity long_name (symptom_id r)) pct_mild of
                     None \<Rightarrow> 0 | Some v \<Rightarrow> v) \<and>
         Moderate c = (case Option.bind (severity long_name (symptom_id r)) pct_moderate of
                         None \<Rightarrow> 0 | Some v \<Rightarrow> v) \<and>
         Severe c = (case Option.bind (severity long_name (symptom_id r)) pct_severe of
                       None \<Rightarrow> 0 | Some v \<Rightarrow> v)"
    by blast
  then have "name (severityChart long_name a_stage [1] ! 0) = js_str ''Irregular menst'' @ [ellipsis] \<and>
   Mild (severityChart long_name a_stage [1] ! 0) = 20 \<and>
   Moderate (severityChart long_name a_stage [1] ! 0) = 0 \<and>
   Severe (severityChart long_name a_stage [1] ! 0) = 5"
    unfolding r Let_def by (simp add: long_name_row_def sev js_str_def del: One_nat_def)
  with k r show ?thesis by blast
qed

text \<open>
  Claim C10. A stage entry whose percentage is 0 is treated as an absent stage entry: the
  effective percentage is the overall percentage of the row, which is that of the overall
  entry or 0 when there is none, so an overall percentage of 0 gives 0 as well; and the whole
  result is the one computed from the dataset without that stage entry.
\<close>

theorem zero_percentage_falls_through:
  assumes "stagePrevalence d st i = Some e" and "prevalence_entry.percentage e = Some 0"
  shows "percentage (prevalence_of d st i) = overall_percentage (prevalence_of d st i) \<and>
         overall_percentage (prevalence_of d st i) =
           (case Option.bind (prevalence d i) prevalence_entry.percentage of
              None \<Rightarrow> 0 | Some p \<Rightarrow> p) \<and>
         (Option.bind (prevalence d i) prevalence_entry.percentage = Some 0 \<longrightarrow>
            percentage (prevalence_of d st i) = 0) \<and>
         prevalenceResults d st sel = prevalenceResults (drop_stage_entry d st i) st sel"
proof -
  from assms have a: "percentage (prevalence_of d st i) = overall_percentage (prevalence_of d st i)"
    by (simp add: prevalence_of_def entry_or_empty_def Let_def)
  have b: "overall_percentage (prevalence_of d st i) =
           (case Option.bind (prevalence d i) prevalence_entry.percentage of
              None \<Rightarrow> 0 | Some p \<Rightarrow> p)"
    by (simp add: prevalence_of_def entry_or_empty_def empty_entry_def num_or_zero
        split: option.splits)
  have "prevalence_of (drop_stage_entry d st i) st j = prevalence_of d st j" for j
    using assms by (cases "j = i") (simp_all add: prevalence_of_drop_other prevalence_of_drop_zero)
  then have "prevalence_of (drop_stage_entry d st i) st = prevalence_of d st"
    by (rule ext)
  then have c: "prevalenceResults d st sel = prevalenceResults (drop_stage_entry d st i) st sel"
    by (simp add: prevalenceResults_def)
  from a b c show ?thesis
    by simp
qed

text \<open>
  Symptom 1 has the stage percentage 0 and the overall percentage 45: its row carries 45.
  Symptom 2 has the stage percentage 0 and the overall percentage 0: its row carries 0.
\<close>

theorem zero_percentage_falls_through_witness:
  "stagePrevalence long_name a_stage 1 =
     Some \<lparr>prevalence_entry.symptom_name = None, category_icon = None, percentage = Some 0\<rparr> \<and>
   percentage (prevalence_of long_name a_stage 1) = 45 \<and>
   prevalenceResults long_name a_stage [1]
     = prevalenceResults (drop_stage_entry long_name a_stage 1) a_stage [1] \<and>
   stagePrevalence long_name a_stage 2 =
     Some \<lparr>prevalence_entry.symptom_name = None, category_icon = None, percentage = Some 0\<rparr> \<and>
   Option.bind (prevalence long_name 2) prevalence_entry.percentage = Some 0 \<and>
   percentage (prevalence_of long_name a_stage 2) = 0"
proof -
  let ?e = "\<lparr>prevalence_entry.symptom_name = None, category_icon = None, percentage = Some 0\<rparr>"
  have s: "stagePrevalence long_name a_stage 1 = Some ?e"
    by (simp add: stagePrevalence_def long_name_def no_data_def a_stage_def)
  have s2: "stagePrevalence long_name a_stage 2 = Some ?e"
    by (simp add: stagePrevalence_def long_name_def no_data_def a_stage_def)
  have z: "prevalence_entry.percentage ?e = Some 0"
    by simp
  have o: "Option.bind (prevalence long_name 1) prevalence_entry.percentage = Some 45"
    by (simp add: long_name_def no_data_def)
  have o2: "Option.bind (prevalence long_name 2) prevalence_entry.percentage = Some 0"
    by (simp add: long_name_def no_data_def)
  note t = zero_percentage_falls_through [OF s z, of "[1]"]
  note t2 = zero_percentage_falls_through [OF s2 z, of "[2]"]
  from t have "percentage (prevalence_of long_name a_stage 1) =
           (case Option.bind (prevalence long_name 1) prevalence_entry.percentage of
              None \<Rightarrow> 0 | Some p \<Rightarrow> p)"
    by simp
  then have p: "percentage (prevalence_of long_name a_stage 1) = 45"
    unfolding o by simp
  from t2 o2 have p2: "percentage (prevalence_of long_name a_stage 2) = 0"
    by blast
  from t s p s2 o2 p2 show ?thesis
    by blast
qed

end
